theory Spec2Isabelle
  imports Complex_Main "HOL-Library.Log_Nat"
begin

section \<open>The numeric environment of the program\<close>

text \<open>
  The program computes with two kinds of numbers. A TypeScript \<^verbatim>\<open>number\<close> is an IEEE 754
  binary64 value: every arithmetic operation returns the exact result rounded to the nearest
  representable value, ties to even, and overflows to an infinity. A \<^verbatim>\<open>Big\<close> (package
  big.js) is an arbitrary-precision decimal: \<^verbatim>\<open>add\<close>, \<^verbatim>\<open>minus\<close> and \<^verbatim>\<open>mul\<close> are exact,
  \<^verbatim>\<open>div\<close> rounds the quotient to \<^verbatim>\<open>Big.DP\<close> decimal places (half away from zero, the
  mode \<^verbatim>\<open>Big.RM = 1\<close>) and throws on a zero divisor, and the constructor throws on
  \<^verbatim>\<open>NaN\<close> and on the infinities.

  A finite number is represented by the rational it denotes. The sign of zero is not
  represented: none of the modelled functions divides by a computed zero or prints one.
  \<^verbatim>\<open>Big.DP\<close> is a global of the library (20 by default, set to 18 when
  \<^verbatim>\<open>src/utils/math.ts\<close> is loaded), so the metric functions take it as the parameter \<open>dp\<close>.
\<close>

datatype jsnum = Fin rat | PInf | NInf | NaN

datatype error =
    DivisionByZero
  | InvalidNumber
  | NotInitialized string
  | ConfigError string
  | Thrown string

definition pow2 :: "int \<Rightarrow> rat" where
  "pow2 e = (if 0 \<le> e then of_int (2 ^ nat e) else 1 / of_int (2 ^ nat (- e)))"

definition pow10 :: "int \<Rightarrow> rat" where
  "pow10 e = (if 0 \<le> e then of_int (10 ^ nat e) else 1 / of_int (10 ^ nat (- e)))"

text \<open>\<open>floor_log2 x\<close> is the exponent \<open>L\<close> with \<open>2^L \<le> x < 2^(L+1)\<close>, for positive \<open>x\<close>.\<close>

definition floor_log2 :: "rat \<Rightarrow> int" where
  "floor_log2 x = (let (a, b) = quotient_of x; d = bitlen a - bitlen b
     in if (if 0 \<le> d then b * 2 ^ nat d \<le> a else b \<le> a * 2 ^ nat (- d)) then d else d - 1)"

text \<open>The integer nearest to \<open>n / d\<close> (for \<open>d > 0\<close>), a tie going to the even neighbour.\<close>

definition round_half_even :: "int \<Rightarrow> int \<Rightarrow> int" where
  "round_half_even n d = (let q = n div d; r = n mod d
     in if 2 * r < d then q else if d < 2 * r then q + 1 else if even q then q else q + 1)"

text \<open>The same rounding, of a rational: \<open>round_half_even n d = rne (n / d)\<close>.\<close>

definition rne :: "rat \<Rightarrow> int" where
  "rne q = (let f = \<lfloor>q\<rfloor>; r = q - of_int f
     in if r < 1 / 2 then f else if 1 / 2 < r then f + 1 else if even f then f else f + 1)"

text \<open>
  Rounding a rational to binary64: the significand has 53 bits, the least exponent of the
  last bit is \<open>-1074\<close> (subnormal numbers), and a rounded magnitude of \<open>2^1024\<close>
  (that is \<open>2^53 * 2^971\<close>) or more is an infinity.
\<close>

definition fl :: "rat \<Rightarrow> jsnum" where
  "fl x = (if x = 0 then Fin 0 else
     let (a, b) = quotient_of \<bar>x\<bar>;
         e = max (floor_log2 \<bar>x\<bar> - 52) (- 1074);
         m = (if 0 \<le> e then round_half_even a (b * 2 ^ nat e)
              else round_half_even (a * 2 ^ nat (- e)) b)
     in if 971 < e \<or> (e = 971 \<and> 2 ^ 53 \<le> m) then (if 0 < x then PInf else NInf)
        else Fin (sgn x * (of_int m * pow2 e)))"

fun js_neg :: "jsnum \<Rightarrow> jsnum" where
  "js_neg (Fin a) = Fin (- a)"
| "js_neg PInf = NInf"
| "js_neg NInf = PInf"
| "js_neg NaN = NaN"

fun js_add :: "jsnum \<Rightarrow> jsnum \<Rightarrow> jsnum" where
  "js_add (Fin a) (Fin b) = fl (a + b)"
| "js_add NaN _ = NaN"
| "js_add _ NaN = NaN"
| "js_add PInf NInf = NaN"
| "js_add NInf PInf = NaN"
| "js_add PInf _ = PInf"
| "js_add _ PInf = PInf"
| "js_add NInf _ = NInf"
| "js_add _ NInf = NInf"

definition js_sub :: "jsnum \<Rightarrow> jsnum \<Rightarrow> jsnum" where
  "js_sub a b = js_add a (js_neg b)"

definition js_sgn :: "jsnum \<Rightarrow> rat" where
  "js_sgn a = (case a of Fin x \<Rightarrow> sgn x | PInf \<Rightarrow> 1 | NInf \<Rightarrow> - 1 | NaN \<Rightarrow> 0)"

definition js_inf :: "rat \<Rightarrow> jsnum" where
  "js_inf s = (if s = 0 then NaN else if 0 < s then PInf else NInf)"

fun js_mul :: "jsnum \<Rightarrow> jsnum \<Rightarrow> jsnum" where
  "js_mul (Fin a) (Fin b) = fl (a * b)"
| "js_mul NaN _ = NaN"
| "js_mul _ NaN = NaN"
| "js_mul a b = js_inf (js_sgn a * js_sgn b)"

fun js_div :: "jsnum \<Rightarrow> jsnum \<Rightarrow> jsnum" where
  "js_div (Fin a) (Fin b) = (if b = 0 then js_inf (sgn a) else fl (a / b))"
| "js_div NaN _ = NaN"
| "js_div _ NaN = NaN"
| "js_div (Fin a) _ = Fin 0"
| "js_div a (Fin b) = js_inf (js_sgn a * (if b < 0 then - 1 else 1))"
| "js_div _ _ = NaN"

fun js_abs :: "jsnum \<Rightarrow> jsnum" where
  "js_abs (Fin a) = Fin \<bar>a\<bar>"
| "js_abs NaN = NaN"
| "js_abs _ = PInf"

fun js_floor :: "jsnum \<Rightarrow> jsnum" where
  "js_floor (Fin a) = Fin (of_int \<lfloor>a\<rfloor>)"
| "js_floor a = a"

fun js_lt :: "jsnum \<Rightarrow> jsnum \<Rightarrow> bool" where
  "js_lt NaN _ = False"
| "js_lt _ NaN = False"
| "js_lt (Fin a) (Fin b) = (a < b)"
| "js_lt PInf _ = False"
| "js_lt _ NInf = False"
| "js_lt _ PInf = True"
| "js_lt NInf _ = True"

definition js_gt :: "jsnum \<Rightarrow> jsnum \<Rightarrow> bool" where
  "js_gt a b = js_lt b a"

definition js_ge :: "jsnum \<Rightarrow> jsnum \<Rightarrow> bool" where
  "js_ge a b = (a \<noteq> NaN \<and> b \<noteq> NaN \<and> \<not> js_lt a b)"

definition js_truthy :: "jsnum \<Rightarrow> bool" where
  "js_truthy a = (a \<noteq> Fin 0 \<and> a \<noteq> NaN)"

text \<open>
  \<^verbatim>\<open>Math.sqrt\<close>: the square root, correctly rounded. \<open>isqrt n\<close> is the integer part of the
  root of \<open>n\<close>, built bit by bit from the top. The root of a rational \<open>a\<close> is first
  bracketed between two neighbouring multiples of \<open>2^(-k)\<close>, with \<open>k\<close> so large that no
  binary64 number and no midpoint of two lies strictly inside the bracket.
\<close>

fun isqrt_from :: "nat \<Rightarrow> int \<Rightarrow> int \<Rightarrow> int" where
  "isqrt_from 0 n acc = (if (acc + 1) * (acc + 1) \<le> n then acc + 1 else acc)"
| "isqrt_from (Suc k) n acc =
     isqrt_from k n (if (acc + 2 ^ Suc k) * (acc + 2 ^ Suc k) \<le> n then acc + 2 ^ Suc k else acc)"

definition isqrt :: "int \<Rightarrow> int" where
  "isqrt n = isqrt_from (nat (bitlen n)) n 0"

definition sqrt_round :: "rat \<Rightarrow> jsnum" where
  "sqrt_round a = (if a = 0 then Fin 0 else
     let (n, d) = quotient_of a;
         k = nat (max 0 ((110 - floor_log2 a) div 2));
         t = (n * 4 ^ k) div d;
         s = isqrt t
     in if s * s * d = n * 4 ^ k then fl (of_int s / of_int (2 ^ k))
        else fl (of_int (2 * s + 1) / of_int (2 ^ Suc k)))"

fun js_sqrt :: "jsnum \<Rightarrow> jsnum" where
  "js_sqrt (Fin a) = (if a < 0 then NaN else sqrt_round a)"
| "js_sqrt PInf = PInf"
| "js_sqrt _ = NaN"

subsection \<open>Decimals\<close>

text \<open>
  \<^verbatim>\<open>Number(b.toString())\<close> and \<^verbatim>\<open>Number(b)\<close> parse the decimal string of a \<^verbatim>\<open>Big\<close>:
  the result is the decimal's value rounded to binary64.
\<close>

definition num_of_big :: "rat \<Rightarrow> jsnum" where
  "num_of_big b = fl b"

text \<open>
  \<^verbatim>\<open>new Big(x)\<close> for a number \<open>x\<close> parses \<^verbatim>\<open>String(x)\<close>, the decimal with the fewest
  significant digits that rounds to \<open>x\<close>, and among several of that length the one closest
  to \<open>x\<close>. For \<open>k\<close> digits the only candidates are the two \<open>k\<close>-digit decimals around \<open>x\<close>;
  seventeen digits always suffice.
\<close>

definition floor_log10 :: "rat \<Rightarrow> int" where
  "floor_log10 x = (let e0 = (floor_log2 x * 30103) div 100000
     in if pow10 (e0 + 1) \<le> x then e0 + 1 else if pow10 e0 \<le> x then e0 else e0 - 1)"

definition decimal_candidates :: "rat \<Rightarrow> nat \<Rightarrow> rat list" where
  "decimal_candidates x k = (let u = pow10 (floor_log10 x - int k + 1);
       lo = of_int \<lfloor>x / u\<rfloor> * u; hi = lo + u
     in filter (\<lambda>c. fl c = Fin x) (if x - lo \<le> hi - x then [lo, hi] else [hi, lo]))"

definition shortest_decimal :: "rat \<Rightarrow> rat" where
  "shortest_decimal x =
     (case List.find (\<lambda>k. decimal_candidates x k \<noteq> []) [1..<18] of
        None \<Rightarrow> x
      | Some k \<Rightarrow> hd (decimal_candidates x k))"

fun big_of_num :: "jsnum \<Rightarrow> error + rat" where
  "big_of_num (Fin x) =
     Inr (if x = 0 then 0 else if 0 < x then shortest_decimal x else - shortest_decimal (- x))"
| "big_of_num _ = Inl InvalidNumber"

definition big_round :: "nat \<Rightarrow> rat \<Rightarrow> rat" where
  "big_round dp q = sgn q * of_int \<lfloor>\<bar>q\<bar> * 10 ^ dp + 1 / 2\<rfloor> / 10 ^ dp"

definition big_div :: "nat \<Rightarrow> rat \<Rightarrow> rat \<Rightarrow> error + rat" where
  "big_div dp a b = (if b = 0 then Inl DivisionByZero else Inr (big_round dp (a / b)))"

text \<open>A \<^verbatim>\<open>try\<close> block whose \<^verbatim>\<open>catch\<close> logs the error and returns a default.\<close>

definition try_catch :: "error + 'a \<Rightarrow> 'a \<Rightarrow> 'a" where
  "try_catch body dflt = (case body of Inl _ \<Rightarrow> dflt | Inr v \<Rightarrow> v)"

definition bind_err :: "error + 'a \<Rightarrow> ('a \<Rightarrow> error + 'b) \<Rightarrow> error + 'b" where
  "bind_err r f = (case r of Inl e \<Rightarrow> Inl e | Inr v \<Rightarrow> f v)"

fun map_err :: "('a \<Rightarrow> error + 'b) \<Rightarrow> 'a list \<Rightarrow> error + 'b list" where
  "map_err f [] = Inr []"
| "map_err f (x # xs) =
     bind_err (f x) (\<lambda>y. bind_err (map_err f xs) (\<lambda>ys. Inr (y # ys)))"

section \<open>The metrics service (\<^verbatim>\<open>src/services/metrics.ts\<close>)\<close>

text \<open>
  \<^verbatim>\<open>Math.pow\<close> is implementation-approximated in ECMAScript, so the two functions that
  call it take it as the parameter \<open>pow\<close>. \<open>pow_ref\<close> is one admissible implementation,
  for integral exponents: the exact power, correctly rounded.
\<close>

definition calculateAPR :: "nat \<Rightarrow> rat \<Rightarrow> rat \<Rightarrow> jsnum" where
  "calculateAPR dp fees24h totalLiquidity =
     (if totalLiquidity = 0 then Fin 0
      else try_catch
        (bind_err (big_div dp fees24h totalLiquidity) (\<lambda>dailyRate.
           Inr (num_of_big (dailyRate * 365 * 100))))
        (Fin 0))"

definition calculateCompoundedAPR ::
  "(jsnum \<Rightarrow> jsnum \<Rightarrow> jsnum) \<Rightarrow> nat \<Rightarrow> rat \<Rightarrow> rat \<Rightarrow> jsnum \<Rightarrow> jsnum" where
  "calculateCompoundedAPR pow dp dailyFee totalLiquidity daysPerYear =
     (if totalLiquidity = 0 then Fin 0
      else try_catch
        (bind_err (big_div dp dailyFee totalLiquidity) (\<lambda>dailyRate.
           let compoundedReturn =
                 js_sub (pow (js_add (Fin 1) (num_of_big dailyRate)) daysPerYear) (Fin 1)
           in Inr (js_mul compoundedReturn (Fin 100))))
        (Fin 0))"

definition calculateImpermanentLoss :: "nat \<Rightarrow> rat \<Rightarrow> rat \<Rightarrow> jsnum" where
  "calculateImpermanentLoss dp initialPriceRatio currentPriceRatio =
     (if initialPriceRatio = 0 \<or> currentPriceRatio = 0 then Fin 0
      else try_catch
        (bind_err (big_div dp currentPriceRatio initialPriceRatio) (\<lambda>ratio.
         bind_err (big_of_num (js_sqrt (num_of_big ratio))) (\<lambda>sqrtRatio.
           let numerator = 2 * sqrtRatio;
               denominator = 1 + ratio
           in bind_err (big_div dp numerator denominator) (\<lambda>q.
                Inr (num_of_big (q - 1))))))
        (Fin 0))"

record Bin =
  liquidityX :: rat
  liquidityY :: rat

record LiquidityMetrics =
  concentrationIndex :: jsnum
  liquidityRatio :: jsnum

definition getLiquidityDistribution :: "nat \<Rightarrow> Bin list \<Rightarrow> LiquidityMetrics" where
  "getLiquidityDistribution dp binData =
     (if length binData = 0 then \<lparr>concentrationIndex = Fin 0, liquidityRatio = Fin 0\<rparr>
      else try_catch
        (let totalX = foldl (\<lambda>sum bin. sum + liquidityX bin) 0 binData;
             totalY = foldl (\<lambda>sum bin. sum + liquidityY bin) 0 binData
         in bind_err
              (map_err (\<lambda>bin.
                 let binTotal = liquidityX bin + liquidityY bin
                 in bind_err (big_div dp binTotal (totalX + totalY)) (\<lambda>q. Inr (num_of_big q)))
               binData) (\<lambda>liquidityShares.
            let concentrationIndex =
                  js_sub (Fin 1) (foldl (\<lambda>a b. js_add a (js_mul b b)) (Fin 0) liquidityShares)
            in bind_err
                 (if totalX = 0 then Inr (Fin 0)
                  else bind_err (big_div dp totalY totalX) (\<lambda>q. Inr (num_of_big q)))
                 (\<lambda>liquidityRatio.
                    Inr \<lparr>concentrationIndex = concentrationIndex,
                         liquidityRatio = liquidityRatio\<rparr>)))
        \<lparr>concentrationIndex = Fin 0, liquidityRatio = Fin 0\<rparr>)"

definition calculateBinPrice ::
  "(jsnum \<Rightarrow> jsnum \<Rightarrow> jsnum) \<Rightarrow> jsnum \<Rightarrow> jsnum \<Rightarrow> rat \<Rightarrow> rat" where
  "calculateBinPrice pow binId binStep basePrice =
     try_catch
       (let stepMultiplier = js_add (Fin 1) (js_div binStep (Fin 10000));
            priceMultiplier = pow stepMultiplier binId
        in bind_err (big_of_num priceMultiplier) (\<lambda>m. Inr (basePrice * m)))
       0"

fun pow_ref :: "jsnum \<Rightarrow> jsnum \<Rightarrow> jsnum" where
  "pow_ref (Fin x) (Fin n) =
     (if n \<noteq> of_int \<lfloor>n\<rfloor> then NaN
      else if 0 \<le> n then fl (x ^ nat \<lfloor>n\<rfloor>)
      else if x = 0 then PInf
      else fl (1 / x ^ nat (- \<lfloor>n\<rfloor>)))"
| "pow_ref _ _ = NaN"

section \<open>The strategy framework (\<^verbatim>\<open>src/strategies/base.ts\<close>)\<close>

text \<open>
  Field names follow \<^verbatim>\<open>src/types\<close>; \<open>action_type\<close> is the field \<^verbatim>\<open>type\<close> and
  \<open>config_poolAddress\<close> the field \<^verbatim>\<open>poolAddress\<close> of the configuration. An optional field
  is an \<open>option\<close>. The pool record has the fields the strategies read. A priority is a
  finite number, so that the comparator \<^verbatim>\<open>b.priority - a.priority\<close> of the sort has the
  sign of the exact difference.
\<close>

datatype ActionType =
  CREATE_POSITION | CLOSE_POSITION | REBALANCE | COLLECT_FEES | ADJUST_RANGE | EMERGENCY_EXIT

datatype StrategyType = Spot | Curve | BidAsk

record ActionParameters =
  positionId :: "string option"
  binRange :: "(jsnum \<times> jsnum) option"
  liquidityAmount :: "rat option"
  slippage :: "jsnum option"
  strategyType :: "StrategyType option"
  reason :: "string option"

record StrategyAction =
  action_type :: ActionType
  poolAddress :: string
  parameters :: ActionParameters
  priority :: rat
  estimatedGas :: int
  expectedReturn :: "rat option"

record RiskParameters =
  maxSlippage :: jsnum
  volatilityThreshold :: jsnum
  concentrationLimit :: jsnum

record StrategyConfig =
  config_poolAddress :: string
  maxPositionSize :: "rat option"
  riskParameters :: "RiskParameters option"

record PoolData =
  address :: string
  activeId :: jsnum
  volatility :: jsnum
  apr :: jsnum
  lastUpdated :: int

record MarketData =
  pools :: "PoolData list"

record ExecutionResult =
  success :: bool
  transactionId :: "string option"
  result_error :: "string option"
  actualReturn :: "rat option"

record BaseStrategy =
  name :: string
  config :: "StrategyConfig option"
  isInitialized :: bool

text \<open>
  The abstract methods and the overridable checks of the class are parameters: each is
  given by what the call returns, \<open>Inl\<close> or \<open>Some\<close> error when it throws.
\<close>

definition getErrorMessage :: "error \<Rightarrow> string" where
  "getErrorMessage e = (case e of
       DivisionByZero \<Rightarrow> ''[big.js] Division by zero''
     | InvalidNumber \<Rightarrow> ''[big.js] Invalid number''
     | NotInitialized n \<Rightarrow> ''Strategy '' @ n @ '' not initialized''
     | ConfigError m \<Rightarrow> m
     | Thrown m \<Rightarrow> m)"

definition validateConfig ::
  "(StrategyConfig \<Rightarrow> error option) \<Rightarrow> StrategyConfig \<Rightarrow> error option" where
  "validateConfig validateStrategySpecificConfig cfg =
     (if config_poolAddress cfg = [] then Some (ConfigError ''Pool address is required'')
      else if (case maxPositionSize cfg of None \<Rightarrow> True | Some m \<Rightarrow> m \<le> 0)
        then Some (ConfigError ''Max position size must be greater than 0'')
      else if riskParameters cfg = None then Some (ConfigError ''Risk parameters are required'')
      else validateStrategySpecificConfig cfg)"

definition initialize ::
  "(StrategyConfig \<Rightarrow> error option) \<Rightarrow> error option \<Rightarrow> BaseStrategy \<Rightarrow> StrategyConfig
     \<Rightarrow> error option \<times> BaseStrategy" where
  "initialize validateStrategySpecificConfig onInitialize s cfg =
     (let s1 = s\<lparr>config := Some cfg\<rparr>
      in case validateConfig validateStrategySpecificConfig cfg of
           Some e \<Rightarrow> (Some e, s1)
         | None \<Rightarrow> (case onInitialize of
             Some e \<Rightarrow> (Some e, s1)
           | None \<Rightarrow> (None, s1\<lparr>isInitialized := True\<rparr>)))"

text \<open>
  The body of \<^verbatim>\<open>isActionSafe\<close>; \<open>Inl\<close> is an exception, which the method's \<^verbatim>\<open>catch\<close>
  turns into \<^verbatim>\<open>false\<close>. Reading a limit off a missing configuration throws.
\<close>

definition isActionSafe_body ::
  "(StrategyAction \<Rightarrow> MarketData \<Rightarrow> error + bool) \<Rightarrow> BaseStrategy \<Rightarrow> StrategyAction
     \<Rightarrow> MarketData \<Rightarrow> error + bool" where
  "isActionSafe_body isStrategySpecificActionSafe s action marketData =
     bind_err
       (case liquidityAmount (parameters action) of
          None \<Rightarrow> Inr True
        | Some amount \<Rightarrow>
            (case config s of
               None \<Rightarrow> Inl (Thrown ''TypeError'')
             | Some cfg \<Rightarrow>
                 (case maxPositionSize cfg of
                    None \<Rightarrow> Inl InvalidNumber
                  | Some m \<Rightarrow> Inr (\<not> m < amount))))
       (\<lambda>sizeOk. if \<not> sizeOk then Inr False else
     bind_err
       (case List.find (\<lambda>p. address p = poolAddress action) (pools marketData) of
          None \<Rightarrow> Inr True
        | Some poolData \<Rightarrow>
            (case config s of
               None \<Rightarrow> Inl (Thrown ''TypeError'')
             | Some cfg \<Rightarrow>
                 (case riskParameters cfg of
                    None \<Rightarrow> Inl (Thrown ''TypeError'')
                  | Some rp \<Rightarrow> Inr (\<not> js_gt (volatility poolData) (volatilityThreshold rp)))))
       (\<lambda>volatilityOk. if \<not> volatilityOk then Inr False else
     bind_err
       (case slippage (parameters action) of
          None \<Rightarrow> Inr True
        | Some sl \<Rightarrow>
            if \<not> js_truthy sl then Inr True
            else (case config s of
               None \<Rightarrow> Inl (Thrown ''TypeError'')
             | Some cfg \<Rightarrow>
                 (case riskParameters cfg of
                    None \<Rightarrow> Inl (Thrown ''TypeError'')
                  | Some rp \<Rightarrow> Inr (\<not> js_gt sl (maxSlippage rp)))))
       (\<lambda>slippageOk. if \<not> slippageOk then Inr False
          else isStrategySpecificActionSafe action marketData)))"

definition isActionSafe ::
  "(StrategyAction \<Rightarrow> MarketData \<Rightarrow> error + bool) \<Rightarrow> BaseStrategy \<Rightarrow> StrategyAction
     \<Rightarrow> MarketData \<Rightarrow> bool" where
  "isActionSafe isStrategySpecificActionSafe s action marketData =
     try_catch (isActionSafe_body isStrategySpecificActionSafe s action marketData) False"

definition applyRiskFilters ::
  "(StrategyAction \<Rightarrow> MarketData \<Rightarrow> error + bool) \<Rightarrow> BaseStrategy \<Rightarrow> StrategyAction list
     \<Rightarrow> MarketData \<Rightarrow> StrategyAction list" where
  "applyRiskFilters isStrategySpecificActionSafe s actions marketData =
     filter (\<lambda>action. isActionSafe isStrategySpecificActionSafe s action marketData) actions"

text \<open>
  \<^verbatim>\<open>Array.prototype.sort\<close> is stable; with the comparator \<^verbatim>\<open>b.priority - a.priority\<close> it
  is the stable sort by descending priority.
\<close>

definition sort_by_priority :: "StrategyAction list \<Rightarrow> StrategyAction list" where
  "sort_by_priority actions = sort_key (\<lambda>a. - priority a) actions"

definition analyze ::
  "(MarketData \<Rightarrow> error + StrategyAction list)
     \<Rightarrow> (StrategyAction \<Rightarrow> MarketData \<Rightarrow> error + bool)
     \<Rightarrow> BaseStrategy \<Rightarrow> MarketData \<Rightarrow> error + StrategyAction list" where
  "analyze onAnalyze isStrategySpecificActionSafe s marketData =
     (if \<not> isInitialized s then Inl (NotInitialized (name s))
      else bind_err (onAnalyze marketData) (\<lambda>actions.
        let filteredActions = applyRiskFilters isStrategySpecificActionSafe s actions marketData
        in Inr (sort_by_priority filteredActions)))"

definition execute ::
  "(StrategyAction \<Rightarrow> error + ExecutionResult) \<Rightarrow> BaseStrategy \<Rightarrow> StrategyAction
     \<Rightarrow> error + ExecutionResult" where
  "execute onExecute s action =
     (if \<not> isInitialized s then Inl (NotInitialized (name s))
      else (case onExecute action of
              Inr result \<Rightarrow> Inr result
            | Inl e \<Rightarrow> Inr \<lparr>success = False, transactionId = None,
                            result_error = Some (getErrorMessage e), actualReturn = None\<rparr>))"

definition cleanup :: "error option \<Rightarrow> BaseStrategy \<Rightarrow> error option \<times> BaseStrategy" where
  "cleanup onCleanup s =
     (case onCleanup of
        Some e \<Rightarrow> (Some e, s)
      | None \<Rightarrow> (None, s\<lparr>isInitialized := False\<rparr>))"

definition estimateGas :: "ActionType \<Rightarrow> int" where
  "estimateGas t = (case t of
       CREATE_POSITION \<Rightarrow> 300000
     | CLOSE_POSITION \<Rightarrow> 200000
     | REBALANCE \<Rightarrow> 400000
     | COLLECT_FEES \<Rightarrow> 150000
     | ADJUST_RANGE \<Rightarrow> 350000
     | EMERGENCY_EXIT \<Rightarrow> 250000)"

definition createAction ::
  "ActionType \<Rightarrow> string \<Rightarrow> ActionParameters \<Rightarrow> rat option \<Rightarrow> StrategyAction" where
  "createAction t addr params expected =
     \<lparr>action_type = t, poolAddress = addr, parameters = params, priority = 50,
      estimatedGas = estimateGas t, expectedReturn = expected\<rparr>"

section \<open>The balanced-liquidity strategy (\<^verbatim>\<open>src/strategies/balanced-liquidity.ts\<close>)\<close>

record BalancedLiquidityConfig =
  targetRange :: jsnum
  rebalanceThreshold :: jsnum

record BalancedLiquidityStrategy =
  strategy_poolAddress :: string
  balancedConfig :: BalancedLiquidityConfig
  lastActiveBinId :: jsnum
  lastRebalanceTime :: int
  minRebalanceInterval :: int

text \<open>
  The defaults of \<^verbatim>\<open>onInitialize\<close>; the literal \<^verbatim>\<open>0.05\<close> is the binary64 number nearest
  to \<open>1/20\<close>. Times are \<^verbatim>\<open>Date.getTime()\<close> milliseconds.
\<close>

definition default_balancedConfig :: BalancedLiquidityConfig where
  "default_balancedConfig = \<lparr>targetRange = Fin 10, rebalanceThreshold = fl (5 / 100)\<rparr>"

definition new_BalancedLiquidityStrategy :: "string \<Rightarrow> BalancedLiquidityStrategy" where
  "new_BalancedLiquidityStrategy addr =
     \<lparr>strategy_poolAddress = addr, balancedConfig = default_balancedConfig,
      lastActiveBinId = Fin 0, lastRebalanceTime = 0, minRebalanceInterval = 300000\<rparr>"

definition analyzeRebalancing ::
  "BalancedLiquidityStrategy \<Rightarrow> int \<Rightarrow> PoolData
     \<Rightarrow> StrategyAction list \<times> BalancedLiquidityStrategy" where
  "analyzeRebalancing s now poolData =
     (let currentActiveBinId = activeId poolData
      in if now - lastRebalanceTime s < minRebalanceInterval s then ([], s)
         else
           (let actions =
              (if lastActiveBinId s \<noteq> Fin 0 then
                 (let binMovement = js_abs (js_sub currentActiveBinId (lastActiveBinId s));
                      movementThreshold =
                        js_floor (js_mul (targetRange (balancedConfig s))
                                         (rebalanceThreshold (balancedConfig s)))
                  in if js_ge binMovement movementThreshold then
                       (let newMinBinId = js_sub currentActiveBinId (targetRange (balancedConfig s));
                            newMaxBinId = js_add currentActiveBinId (targetRange (balancedConfig s))
                        in [createAction REBALANCE (strategy_poolAddress s)
                              \<lparr>positionId = None, binRange = Some (newMinBinId, newMaxBinId),
                               liquidityAmount = None, slippage = None,
                               strategyType = Some Spot,
                               reason = Some ''Active bin movement''\<rparr>
                              None])
                     else [])
               else [])
            in (actions, s\<lparr>lastActiveBinId := currentActiveBinId\<rparr>)))"

section \<open>The pool cache (\<^verbatim>\<open>src/services/market-data.ts\<close>)\<close>

text \<open>
  The service keeps the tracked pools (\<^verbatim>\<open>dlmmInstances\<close>, keyed by address; \<open>'d\<close> is the
  SDK's pool handle) and their latest snapshots (\<^verbatim>\<open>poolCache\<close>). What the SDK answers to
  the calls that open a refresh (\<^verbatim>\<open>refetchStates\<close>, \<^verbatim>\<open>getParameters\<close>, \<^verbatim>\<open>getActiveBin\<close>,
  \<^verbatim>\<open>getBinArrays\<close>, \<^verbatim>\<open>getFeeInfo\<close>) is the parameter \<open>sdk\<close>: the data read, or the error
  thrown by the first call that fails.
\<close>

record 'd MarketDataService =
  poolCache :: "string \<rightharpoonup> PoolData"
  dlmmInstances :: "string \<rightharpoonup> 'd"
  updateInterval :: int

definition new_MarketDataService :: "'d MarketDataService" where
  "new_MarketDataService =
     \<lparr>poolCache = Map.empty, dlmmInstances = Map.empty, updateInterval = 30000\<rparr>"

definition isCacheValid :: "'d MarketDataService \<Rightarrow> int \<Rightarrow> int \<Rightarrow> bool" where
  "isCacheValid s now lastUpdate = (now - lastUpdate < updateInterval s)"

text \<open>
  After the calls of the SDK, \<^verbatim>\<open>updatePoolData\<close> calls \<^verbatim>\<open>this.getTokenInfo\<close>. The class
  declares no such method and inherits none, so the call throws a \<^verbatim>\<open>TypeError\<close>. The
  statements after it build the snapshot (from \<^verbatim>\<open>binLiquidityData\<close>, \<^verbatim>\<open>binStep\<close>,
  \<^verbatim>\<open>compositePrices\<close> and \<^verbatim>\<open>feeData\<close>, names that are declared nowhere in the method) and
  store it with \<^verbatim>\<open>poolCache.set\<close>. The \<^verbatim>\<open>catch\<close> of the method logs the error and throws
  it again.
\<close>

definition getTokenInfo :: "error + unit" where
  "getTokenInfo = Inl (Thrown ''TypeError: this.getTokenInfo is not a function'')"

definition updatePoolData ::
  "'d MarketDataService \<Rightarrow> int \<Rightarrow> string \<Rightarrow> error + PoolData
     \<Rightarrow> error option \<times> 'd MarketDataService" where
  "updatePoolData s now addr sdk =
     (case bind_err sdk (\<lambda>fetched.
           bind_err getTokenInfo (\<lambda>tokenData.
             Inr (fetched\<lparr>address := addr, lastUpdated := now\<rparr>))) of
        Inl e \<Rightarrow> (Some e, s)
      | Inr poolData \<Rightarrow> (None, s\<lparr>poolCache := (poolCache s)(addr \<mapsto> poolData)\<rparr>))"

definition getPoolData ::
  "'d MarketDataService \<Rightarrow> int \<Rightarrow> string \<Rightarrow> error + PoolData
     \<Rightarrow> (error + PoolData option) \<times> 'd MarketDataService" where
  "getPoolData s now addr sdk =
     (case poolCache s addr of
        Some cached \<Rightarrow>
          if isCacheValid s now (lastUpdated cached) then (Inr (Some cached), s)
          else (case dlmmInstances s addr of
                  None \<Rightarrow> (Inr None, s)
                | Some dlmm \<Rightarrow>
                    (case updatePoolData s now addr sdk of
                       (Some e, s') \<Rightarrow> (Inl e, s')
                     | (None, s') \<Rightarrow> (Inr (poolCache s' addr), s')))
      | None \<Rightarrow>
          (case dlmmInstances s addr of
             None \<Rightarrow> (Inr None, s)
           | Some dlmm \<Rightarrow>
               (case updatePoolData s now addr sdk of
                  (Some e, s') \<Rightarrow> (Inl e, s')
                | (None, s') \<Rightarrow> (Inr (poolCache s' addr), s'))))"

definition addPool ::
  "'d MarketDataService \<Rightarrow> int \<Rightarrow> string \<Rightarrow> error + 'd \<Rightarrow> error + PoolData
     \<Rightarrow> error option \<times> 'd MarketDataService" where
  "addPool s now addr create sdk =
     (if dlmmInstances s addr \<noteq> None then (None, s)
      else (case create of
              Inl e \<Rightarrow> (Some e, s)
            | Inr dlmm \<Rightarrow>
                updatePoolData (s\<lparr>dlmmInstances := (dlmmInstances s)(addr \<mapsto> dlmm)\<rparr>)
                  now addr sdk))"

definition removePool :: "'d MarketDataService \<Rightarrow> string \<Rightarrow> 'd MarketDataService" where
  "removePool s addr =
     s\<lparr>dlmmInstances := (dlmmInstances s)(addr := None),
       poolCache := (poolCache s)(addr := None)\<rparr>"

definition close :: "'d MarketDataService \<Rightarrow> 'd MarketDataService" where
  "close s = s\<lparr>poolCache := Map.empty, dlmmInstances := Map.empty\<rparr>"

text \<open>A pool has a fresh snapshot when the cache holds one younger than the update interval.\<close>

definition fresh :: "'d MarketDataService \<Rightarrow> int \<Rightarrow> string \<Rightarrow> bool" where
  "fresh s now addr =
     (case poolCache s addr of None \<Rightarrow> False | Some c \<Rightarrow> isCacheValid s now (lastUpdated c))"

text \<open>
  The states of a service: the cache is private, and the methods of the class write it
  only in \<^verbatim>\<open>updatePoolData\<close> (called by \<^verbatim>\<open>addPool\<close>, \<^verbatim>\<open>getPoolData\<close>, \<^verbatim>\<open>initializePools\<close>
  and the periodic update), \<^verbatim>\<open>removePool\<close> and \<^verbatim>\<open>close\<close>.
\<close>

inductive reachable :: "'d MarketDataService \<Rightarrow> bool" where
  created: "reachable new_MarketDataService"
| added: "reachable s \<Longrightarrow> reachable (snd (addPool s now addr create sdk))"
| updated: "reachable s \<Longrightarrow> reachable (snd (updatePoolData s now addr sdk))"
| got: "reachable s \<Longrightarrow> reachable (snd (getPoolData s now addr sdk))"
| removed: "reachable s \<Longrightarrow> reachable (removePool s addr)"
| closed: "reachable s \<Longrightarrow> reachable (close s)"

section \<open>Basic facts\<close>

lemma bind_err_Inl [simp]: "bind_err (Inl e) f = Inl e"
  by (simp add: bind_err_def)

lemma bind_err_Inr [simp]: "bind_err (Inr x) f = f x"
  by (simp add: bind_err_def)

lemma try_catch_Inl [simp]: "try_catch (Inl e) d = d"
  by (simp add: try_catch_def)

lemma try_catch_Inr [simp]: "try_catch (Inr v) d = v"
  by (simp add: try_catch_def)

lemma map_err_throws: "bs \<noteq> [] \<Longrightarrow> \<forall>b \<in> set bs. f b = Inl e \<Longrightarrow> map_err f bs = Inl e"
  by (cases bs) auto

text \<open>A quotient with at most \<open>dp\<close> decimal places is not changed by the rounding of
  \<^verbatim>\<open>div\<close>; any other moves by at most half a unit of the last place.\<close>

lemma big_round_exact:
  assumes "q * 10 ^ dp = of_int k"
  shows "big_round dp q = q"
proof -
  have "\<bar>q\<bar> * 10 ^ dp = \<bar>q * 10 ^ dp\<bar>"
    by (simp add: abs_mult)
  also have "\<dots> = of_int \<bar>k\<bar>"
    using assms by simp
  finally have eq: "\<bar>q\<bar> * 10 ^ dp = of_int \<bar>k\<bar>" .
  have "\<lfloor>\<bar>q\<bar> * 10 ^ dp + 1 / 2\<rfloor> = \<bar>k\<bar>"
    unfolding eq by linarith
  then have "big_round dp q = sgn q * (\<bar>q\<bar> * 10 ^ dp) / 10 ^ dp"
    by (simp add: big_round_def eq)
  also have "\<dots> = sgn q * \<bar>q\<bar>"
    by simp
  also have "\<dots> = q"
    by (simp add: sgn_mult_abs)
  finally show ?thesis .
qed

lemma big_round_error: "\<bar>big_round dp q - q\<bar> \<le> 1 / (2 * 10 ^ dp)"
proof -
  define t where "t = \<bar>q\<bar> * 10 ^ dp"
  define n where "n = \<lfloor>t + 1 / 2\<rfloor>"
  have n: "of_int n \<le> t + 1 / 2" "t + 1 / 2 < of_int n + 1"
    unfolding n_def by linarith+
  then have d: "\<bar>of_int n - t\<bar> \<le> 1 / 2" by linarith
  have p: "(0::rat) < 10 ^ dp" by simp
  have "big_round dp q - q = sgn q * (of_int n / 10 ^ dp) - sgn q * \<bar>q\<bar>"
    by (simp add: big_round_def n_def t_def sgn_mult_abs)
  also have "\<dots> = sgn q * ((of_int n - t) / 10 ^ dp)"
    by (simp add: t_def algebra_simps diff_divide_distrib)
  finally have "\<bar>big_round dp q - q\<bar> = \<bar>sgn q\<bar> * (\<bar>of_int n - t\<bar> / 10 ^ dp)"
    by (simp add: abs_mult)
  also have "\<dots> \<le> 1 * ((1 / 2) / 10 ^ dp)"
    using d p by (intro mult_mono divide_right_mono) (auto simp: abs_sgn_eq)
  finally show ?thesis by simp
qed


section \<open>The pool cache\<close>

text \<open>A refresh never succeeds: it throws the error of the SDK, or the \<^verbatim>\<open>TypeError\<close> of the
  missing method, and leaves the service as it was.\<close>

lemma updatePoolData_throws:
  "updatePoolData s now addr sdk =
     (Some (case sdk of Inl e \<Rightarrow> e
            | Inr fetched \<Rightarrow> Thrown ''TypeError: this.getTokenInfo is not a function''), s)"
  by (cases sdk) (simp_all add: updatePoolData_def getTokenInfo_def)

lemma getPoolData_state: "snd (getPoolData s now addr sdk) = s"
  by (simp add: getPoolData_def updatePoolData_throws split: option.splits)

text \<open>So no snapshot is ever stored.\<close>

lemma reachable_cache_empty:
  assumes "reachable s"
  shows "poolCache s = Map.empty"
  using assms
proof (induction rule: reachable.induct)
  case created
  show ?case
    by (simp add: new_MarketDataService_def)
next
  case (added s now addr create sdk)
  then show ?case
    by (cases create) (simp_all add: addPool_def updatePoolData_throws)
next
  case (updated s now addr sdk)
  then show ?case
    by (simp add: updatePoolData_throws)
next
  case (got s now addr sdk)
  then show ?case
    by (simp add: getPoolData_state)
next
  case (removed s addr)
  then show ?case
    by (simp add: removePool_def)
next
  case (closed s)
  show ?case
    by (simp add: close_def)
qed

text \<open>
  Whatever the cache holds, \<^verbatim>\<open>getPoolData\<close> has no handler around the refresh: for a
  tracked pool without a fresh snapshot the caller gets the error, also when the cache
  holds an older snapshot.
\<close>

lemma getPoolData_rethrows:
  assumes "\<not> fresh s now addr" and "dlmmInstances s addr \<noteq> None"
  shows "getPoolData s now addr sdk =
     (Inl (case sdk of Inl e \<Rightarrow> e
           | Inr fetched \<Rightarrow> Thrown ''TypeError: this.getTokenInfo is not a function''), s)"
  using assms
  by (auto simp: getPoolData_def fresh_def updatePoolData_throws split: option.splits)

text \<open>
  Claim C1: the claim is about a service that obtains snapshots and serves the last one
  when a refresh fails. The code never obtains one. In every state of a service the cache
  is empty; \<^verbatim>\<open>getPoolData\<close> returns \<^verbatim>\<open>null\<close> for an address that is not tracked, and for
  a tracked address it fails the caller with the error of the refresh: the error of the
  SDK, or the \<^verbatim>\<open>TypeError\<close> of the call of \<^verbatim>\<open>getTokenInfo\<close> when the SDK answers. It never
  returns a snapshot, and it returns \<^verbatim>\<open>null\<close> only for an address that is not tracked.
\<close>

theorem getPoolData_never_serves:
  assumes "reachable s"
  shows "poolCache s = Map.empty
     \<and> (dlmmInstances s addr = None \<longrightarrow> getPoolData s now addr sdk = (Inr None, s))
     \<and> (dlmmInstances s addr \<noteq> None \<longrightarrow>
          (\<forall>e. sdk = Inl e \<longrightarrow> getPoolData s now addr sdk = (Inl e, s))
        \<and> (\<forall>fetched. sdk = Inr fetched \<longrightarrow> getPoolData s now addr sdk
              = (Inl (Thrown ''TypeError: this.getTokenInfo is not a function''), s)))
     \<and> (\<forall>snapshot. fst (getPoolData s now addr sdk) \<noteq> Inr (Some snapshot))
     \<and> (fst (getPoolData s now addr sdk) = Inr None \<longrightarrow> dlmmInstances s addr = None)"
proof -
  have empty: "poolCache s = Map.empty"
    using assms by (rule reachable_cache_empty)
  then have stale: "\<not> fresh s now addr"
    by (simp add: fresh_def)
  have untracked: "getPoolData s now addr sdk = (Inr None, s)" if "dlmmInstances s addr = None"
    using that empty by (simp add: getPoolData_def)
  have tracked: "getPoolData s now addr sdk =
      (Inl (case sdk of Inl e \<Rightarrow> e
            | Inr fetched \<Rightarrow> Thrown ''TypeError: this.getTokenInfo is not a function''), s)"
    if "dlmmInstances s addr \<noteq> None"
    using stale that by (rule getPoolData_rethrows)
  show ?thesis
  proof (cases "dlmmInstances s addr = None")
    case True
    with empty untracked show ?thesis
      by simp
  next
    case False
    with empty tracked show ?thesis
      by (cases sdk) simp_all
  qed
qed

text \<open>
  A pool is added while the SDK answers every call: \<^verbatim>\<open>addPool\<close> registers the pool and
  then fails in its first refresh. A later \<^verbatim>\<open>getPoolData\<close> for the pool fails the caller
  in the same way, and the cache is still empty.
\<close>

theorem getPoolData_never_serves_witness:
  "reachable (snd (addPool (new_MarketDataService :: unit MarketDataService) 0 ''pool'' (Inr ())
       (Inr \<lparr>address = ''pool'', activeId = Fin 100, volatility = Fin 0, apr = Fin 0,
             lastUpdated = 0\<rparr>)))
   \<and> addPool (new_MarketDataService :: unit MarketDataService) 0 ''pool'' (Inr ())
       (Inr \<lparr>address = ''pool'', activeId = Fin 100, volatility = Fin 0, apr = Fin 0,
             lastUpdated = 0\<rparr>)
     = (Some (Thrown ''TypeError: this.getTokenInfo is not a function''),
        \<lparr>poolCache = Map.empty, dlmmInstances = [''pool'' \<mapsto> ()], updateInterval = 30000\<rparr>)
   \<and> getPoolData
       \<lparr>poolCache = Map.empty, dlmmInstances = [''pool'' \<mapsto> ()], updateInterval = 30000\<rparr>
       1000 ''pool''
       (Inr \<lparr>address = ''pool'', activeId = Fin 100, volatility = Fin 0, apr = Fin 0,
             lastUpdated = 0\<rparr>)
     = (Inl (Thrown ''TypeError: this.getTokenInfo is not a function''),
        \<lparr>poolCache = Map.empty, dlmmInstances = [''pool'' \<mapsto> ()], updateInterval = 30000\<rparr>)
   \<and> getPoolData
       \<lparr>poolCache = Map.empty, dlmmInstances = [''pool'' \<mapsto> ()], updateInterval = 30000\<rparr>
       1000 ''other''
       (Inr \<lparr>address = ''pool'', activeId = Fin 100, volatility = Fin 0, apr = Fin 0,
             lastUpdated = 0\<rparr>)
     = (Inr None,
        \<lparr>poolCache = Map.empty, dlmmInstances = [''pool'' \<mapsto> ()], updateInterval = 30000\<rparr>)"
proof -
  let ?d = "\<lparr>address = ''pool'', activeId = Fin 100, volatility = Fin 0, apr = Fin 0,
             lastUpdated = 0\<rparr>"
  let ?s = "\<lparr>poolCache = Map.empty, dlmmInstances = [''pool'' \<mapsto> ()],
             updateInterval = 30000\<rparr> :: unit MarketDataService"
  have add: "addPool (new_MarketDataService :: unit MarketDataService) 0 ''pool'' (Inr ()) (Inr ?d)
      = (Some (Thrown ''TypeError: this.getTokenInfo is not a function''), ?s)"
    by (simp add: addPool_def new_MarketDataService_def updatePoolData_def getTokenInfo_def)
  have "reachable (snd (addPool (new_MarketDataService :: unit MarketDataService) 0 ''pool''
      (Inr ()) (Inr ?d)))"
    by (intro reachable.added reachable.created)
  then have r: "reachable ?s"
    by (simp only: add snd_conv)
  from getPoolData_never_serves [OF r, of "''pool''" 1000 "Inr ?d"]
    getPoolData_never_serves [OF r, of "''other''" 1000 "Inr ?d"]
  show ?thesis
    using r add by simp
qed

section \<open>The strategy framework\<close>








text \<open>
  Claim C9: \<^verbatim>\<open>analyze\<close> and \<^verbatim>\<open>execute\<close> on a strategy that is not initialized raise the
  error for that call and return nothing else; so they do after \<^verbatim>\<open>cleanup\<close>. After a
  successful \<^verbatim>\<open>initialize\<close> the strategy is initialized, and an error of \<^verbatim>\<open>analyze\<close> is
  then one thrown by the strategy's own analysis.
\<close>

theorem analyze_requires_initialize:
  "(\<not> isInitialized s \<longrightarrow>
      analyze onAnalyze specific s md = Inl (NotInitialized (name s)) \<and>
      execute onExecute s a = Inl (NotInitialized (name s)))
   \<and> (cleanup onCleanup s = (None, s1) \<longrightarrow>
      analyze onAnalyze specific s1 md = Inl (NotInitialized (name s1)) \<and>
      execute onExecute s1 a = Inl (NotInitialized (name s1)))
   \<and> (initialize validateSpecific onInitialize s cfg = (None, s2) \<longrightarrow>
      isInitialized s2 \<and>
      (\<forall>e. analyze onAnalyze specific s2 md = Inl e \<longrightarrow> onAnalyze md = Inl e))"
  by (auto simp: analyze_def execute_def cleanup_def initialize_def Let_def bind_err_def
      split: option.splits sum.splits)

theorem analyze_requires_initialize_witness:
  "\<not> isInitialized \<lparr>name = ''balanced_liquidity'', config = None, isInitialized = False\<rparr>
   \<and> analyze (\<lambda>_. Inr []) (\<lambda>_ _. Inr True)
        \<lparr>name = ''balanced_liquidity'', config = None, isInitialized = False\<rparr> \<lparr>pools = []\<rparr>
      = Inl (NotInitialized ''balanced_liquidity'')
   \<and> execute (\<lambda>_. Inl (Thrown ''unused''))
        \<lparr>name = ''balanced_liquidity'', config = None, isInitialized = False\<rparr>
        (createAction COLLECT_FEES ''pool''
           \<lparr>positionId = None, binRange = None, liquidityAmount = None,
            slippage = None, strategyType = None, reason = None\<rparr> None)
      = Inl (NotInitialized ''balanced_liquidity'')
   \<and> initialize (\<lambda>_. None) None
        \<lparr>name = ''balanced_liquidity'', config = None, isInitialized = False\<rparr>
        \<lparr>config_poolAddress = ''pool'', maxPositionSize = Some 1000,
         riskParameters = Some \<lparr>maxSlippage = Fin (1 / 2), volatilityThreshold = Fin (1 / 2),
           concentrationLimit = Fin (1 / 4)\<rparr>\<rparr>
      = (None, \<lparr>name = ''balanced_liquidity'',
          config = Some \<lparr>config_poolAddress = ''pool'', maxPositionSize = Some 1000,
            riskParameters = Some \<lparr>maxSlippage = Fin (1 / 2),
              volatilityThreshold = Fin (1 / 2), concentrationLimit = Fin (1 / 4)\<rparr>\<rparr>,
          isInitialized = True\<rparr>)
   \<and> isInitialized \<lparr>name = ''balanced_liquidity'',
          config = Some \<lparr>config_poolAddress = ''pool'', maxPositionSize = Some 1000,
            riskParameters = Some \<lparr>maxSlippage = Fin (1 / 2),
              volatilityThreshold = Fin (1 / 2), concentrationLimit = Fin (1 / 4)\<rparr>\<rparr>,
          isInitialized = True\<rparr>"
  using analyze_requires_initialize [of
      "\<lparr>name = ''balanced_liquidity'', config = None, isInitialized = False\<rparr>"
      "\<lambda>_. Inr []" "\<lambda>_ _. Inr True" "\<lparr>pools = []\<rparr>"
      "\<lambda>_. Inl (Thrown ''unused'')"
      "createAction COLLECT_FEES ''pool''
           \<lparr>positionId = None, binRange = None, liquidityAmount = None,
            slippage = None, strategyType = None, reason = None\<rparr> None"
      None
      "\<lparr>name = ''balanced_liquidity'', config = None, isInitialized = False\<rparr>"
      "\<lambda>_. None" None
      "\<lparr>config_poolAddress = ''pool'', maxPositionSize = Some 1000,
         riskParameters = Some \<lparr>maxSlippage = Fin (1 / 2), volatilityThreshold = Fin (1 / 2),
           concentrationLimit = Fin (1 / 4)\<rparr>\<rparr>"
      "\<lparr>name = ''balanced_liquidity'',
          config = Some \<lparr>config_poolAddress = ''pool'', maxPositionSize = Some 1000,
            riskParameters = Some \<lparr>maxSlippage = Fin (1 / 2),
              volatilityThreshold = Fin (1 / 2), concentrationLimit = Fin (1 / 4)\<rparr>\<rparr>,
          isInitialized = True\<rparr>"]
  by (simp add: initialize_def validateConfig_def cleanup_def)

section \<open>The balanced-liquidity strategy\<close>

lemma rebalance_values:
  "fl 12 = Fin 12" "fl 102 = Fin 102" "fl 122 = Fin 122"
  "js_floor (js_mul (Fin 10) (fl (1 / 20))) = Fin 0"
  by code_simp+

text \<open>
  The analysis of rebalancing in general. Within the cooldown interval it returns nothing
  and changes nothing. After it, the current active bin is recorded; an action is emitted
  when a bin was observed before (the last observed bin is not 0) and the movement is at
  least \<open>floor (targetRange * rebalanceThreshold)\<close>, and its range is the current bin minus
  and plus \<^verbatim>\<open>targetRange\<close>.
\<close>

lemma analyzeRebalancing_cases:
  "(now - lastRebalanceTime s < minRebalanceInterval s \<longrightarrow>
      analyzeRebalancing s now poolData = ([], s))
   \<and> (\<not> now - lastRebalanceTime s < minRebalanceInterval s \<longrightarrow>
        snd (analyzeRebalancing s now poolData) = s\<lparr>lastActiveBinId := activeId poolData\<rparr>
      \<and> (lastActiveBinId s = Fin 0 \<longrightarrow> fst (analyzeRebalancing s now poolData) = [])
      \<and> (lastActiveBinId s \<noteq> Fin 0
           \<and> \<not> js_ge (js_abs (js_sub (activeId poolData) (lastActiveBinId s)))
                 (js_floor (js_mul (targetRange (balancedConfig s))
                                   (rebalanceThreshold (balancedConfig s)))) \<longrightarrow>
          fst (analyzeRebalancing s now poolData) = [])
      \<and> (lastActiveBinId s \<noteq> Fin 0
           \<and> js_ge (js_abs (js_sub (activeId poolData) (lastActiveBinId s)))
                 (js_floor (js_mul (targetRange (balancedConfig s))
                                   (rebalanceThreshold (balancedConfig s)))) \<longrightarrow>
          fst (analyzeRebalancing s now poolData)
            = [createAction REBALANCE (strategy_poolAddress s)
                 \<lparr>positionId = None,
                  binRange = Some (js_sub (activeId poolData) (targetRange (balancedConfig s)),
                                   js_add (activeId poolData) (targetRange (balancedConfig s))),
                  liquidityAmount = None, slippage = None, strategyType = Some Spot,
                  reason = Some ''Active bin movement''\<rparr> None]))"
  by (simp add: analyzeRebalancing_def Let_def)

text \<open>With \<^verbatim>\<open>targetRange\<close> 100 the threshold is \<open>floor (100 * 0.05) = 5\<close>: a movement from
  bin 100 to bin 103 emits nothing, a movement to bin 105 emits the range \<open>[5, 205]\<close>.\<close>

lemma rebalance_threshold_values:
  "js_floor (js_mul (Fin 100) (fl (1 / 20))) = Fin 5"
  "fst (analyzeRebalancing
     \<lparr>strategy_poolAddress = ''pool'',
      balancedConfig = \<lparr>targetRange = Fin 100, rebalanceThreshold = fl (1 / 20)\<rparr>,
      lastActiveBinId = Fin 100, lastRebalanceTime = 0, minRebalanceInterval = 300000\<rparr>
     300000
     \<lparr>address = ''pool'', activeId = Fin 103, volatility = Fin 0, apr = Fin 0,
      lastUpdated = 0\<rparr>) = []"
  "map (\<lambda>a. binRange (parameters a)) (fst (analyzeRebalancing
     \<lparr>strategy_poolAddress = ''pool'',
      balancedConfig = \<lparr>targetRange = Fin 100, rebalanceThreshold = fl (1 / 20)\<rparr>,
      lastActiveBinId = Fin 100, lastRebalanceTime = 0, minRebalanceInterval = 300000\<rparr>
     300000
     \<lparr>address = ''pool'', activeId = Fin 105, volatility = Fin 0, apr = Fin 0,
      lastUpdated = 0\<rparr>)) = [Some (Fin 5, Fin 205)]"
  "fst (analyzeRebalancing
     \<lparr>strategy_poolAddress = ''pool'',
      balancedConfig = \<lparr>targetRange = Fin 100, rebalanceThreshold = fl (1 / 20)\<rparr>,
      lastActiveBinId = Fin 100, lastRebalanceTime = 0, minRebalanceInterval = 300000\<rparr>
     299999
     \<lparr>address = ''pool'', activeId = Fin 105, volatility = Fin 0, apr = Fin 0,
      lastUpdated = 0\<rparr>) = []"
  by code_simp+

text \<open>
  Claim C8: with \<^verbatim>\<open>targetRange\<close> 10 and \<^verbatim>\<open>rebalanceThreshold\<close> 0.05 the movement
  threshold is \<open>floor (10 * 0.05) = 0\<close>; when the cooldown interval has elapsed, the last
  observed active bin is 100 and the current one is 112, the analysis emits one rebalance
  action, for the strategy's pool, with the bin range \<open>[102, 122]\<close>, and records 112 as
  the last observed bin.
\<close>

theorem rebalance_scenario:
  assumes "balancedConfig s = default_balancedConfig"
    and "lastActiveBinId s = Fin 100"
    and "activeId poolData = Fin 112"
    and "minRebalanceInterval s \<le> now - lastRebalanceTime s"
  shows "js_floor (js_mul (targetRange (balancedConfig s))
                          (rebalanceThreshold (balancedConfig s))) = Fin 0
     \<and> (\<exists>a. fst (analyzeRebalancing s now poolData) = [a] \<and> action_type a = REBALANCE
           \<and> poolAddress a = strategy_poolAddress s
           \<and> binRange (parameters a) = Some (Fin 102, Fin 122))
     \<and> lastActiveBinId (snd (analyzeRebalancing s now poolData)) = Fin 112"
  using assms
  by (simp add: analyzeRebalancing_def default_balancedConfig_def Let_def rebalance_values
      js_sub_def js_ge_def createAction_def)

theorem rebalance_scenario_witness:
  "\<exists>a. fst (analyzeRebalancing
            ((new_BalancedLiquidityStrategy ''pool'')\<lparr>lastActiveBinId := Fin 100\<rparr>) 300000
            \<lparr>address = ''pool'', activeId = Fin 112, volatility = Fin 0, apr = Fin 0,
             lastUpdated = 0\<rparr>) = [a]
      \<and> action_type a = REBALANCE
      \<and> binRange (parameters a) = Some (Fin 102, Fin 122)"
proof -
  let ?s = "(new_BalancedLiquidityStrategy ''pool'')\<lparr>lastActiveBinId := Fin 100\<rparr>"
  let ?p = "\<lparr>address = ''pool'', activeId = Fin 112, volatility = Fin 0, apr = Fin 0,
             lastUpdated = 0\<rparr>"
  have 1: "balancedConfig ?s = default_balancedConfig"
    by (simp add: new_BalancedLiquidityStrategy_def)
  have 2: "lastActiveBinId ?s = Fin 100"
    by simp
  have 3: "activeId ?p = Fin 112"
    by simp
  have 4: "minRebalanceInterval ?s \<le> 300000 - lastRebalanceTime ?s"
    by (simp add: new_BalancedLiquidityStrategy_def)
  from rebalance_scenario [OF 1 2 3 4] show ?thesis
    by blast
qed

section \<open>The metrics service\<close>

lemma foldl_liquidityX_zero:
  "\<forall>b \<in> set bs. liquidityX b = 0 \<Longrightarrow> foldl (\<lambda>sum bin. sum + liquidityX bin) a bs = a"
  by (induction bs arbitrary: a) auto

lemma foldl_liquidityY_zero:
  "\<forall>b \<in> set bs. liquidityY b = 0 \<Longrightarrow> foldl (\<lambda>sum bin. sum + liquidityY bin) a bs = a"
  by (induction bs arbitrary: a) auto

text \<open>
  Claim C10: for a non-empty list of bins whose amounts are all zero the first share divides
  by the zero total, \<^verbatim>\<open>div\<close> throws, the \<^verbatim>\<open>catch\<close> returns: the result is \<open>(0, 0)\<close>,
  as for the empty list, and nothing is raised.
\<close>

theorem zero_liquidity_distribution:
  assumes "binData \<noteq> []" and "\<forall>b \<in> set binData. liquidityX b = 0 \<and> liquidityY b = 0"
  shows "map_err (\<lambda>bin. bind_err (big_div dp (liquidityX bin + liquidityY bin)
             (foldl (\<lambda>sum bin. sum + liquidityX bin) 0 binData
                + foldl (\<lambda>sum bin. sum + liquidityY bin) 0 binData))
             (\<lambda>q. Inr (num_of_big q))) binData = Inl DivisionByZero
     \<and> getLiquidityDistribution dp binData
         = \<lparr>concentrationIndex = Fin 0, liquidityRatio = Fin 0\<rparr>
     \<and> getLiquidityDistribution dp binData = getLiquidityDistribution dp []"
proof -
  have X: "foldl (\<lambda>sum bin. sum + liquidityX bin) 0 binData = 0"
    using assms(2) by (simp add: foldl_liquidityX_zero)
  have Y: "foldl (\<lambda>sum bin. sum + liquidityY bin) 0 binData = 0"
    using assms(2) by (simp add: foldl_liquidityY_zero)
  have 1: "map_err (\<lambda>bin. bind_err (big_div dp (liquidityX bin + liquidityY bin)
             (foldl (\<lambda>sum bin. sum + liquidityX bin) 0 binData
                + foldl (\<lambda>sum bin. sum + liquidityY bin) 0 binData))
             (\<lambda>q. Inr (num_of_big q))) binData = Inl DivisionByZero"
    using assms(1) by (intro map_err_throws) (simp_all add: X Y big_div_def)
  have 2: "getLiquidityDistribution dp binData
      = \<lparr>concentrationIndex = Fin 0, liquidityRatio = Fin 0\<rparr>"
    using assms(1) 1 by (simp add: getLiquidityDistribution_def Let_def)
  have 3: "getLiquidityDistribution dp binData = getLiquidityDistribution dp []"
    using 2 by (simp add: getLiquidityDistribution_def)
  from 1 2 3 show ?thesis by blast
qed

theorem zero_liquidity_distribution_witness:
  "getLiquidityDistribution 20
     [\<lparr>liquidityX = 0, liquidityY = 0\<rparr>, \<lparr>liquidityX = 0, liquidityY = 0\<rparr>]
   = \<lparr>concentrationIndex = Fin 0, liquidityRatio = Fin 0\<rparr>"
proof -
  have 1: "[\<lparr>liquidityX = 0, liquidityY = 0\<rparr>, \<lparr>liquidityX = 0, liquidityY = 0\<rparr>] \<noteq> []"
    by simp
  have 2: "\<forall>b \<in> set [\<lparr>liquidityX = 0, liquidityY = 0\<rparr>, \<lparr>liquidityX = 0, liquidityY = 0\<rparr>].
      liquidityX b = 0 \<and> liquidityY b = 0"
    by simp
  from zero_liquidity_distribution [OF 1 2, of 20] show ?thesis
    by blast
qed



text \<open>
  Claim C4 on the code: the compounded APR is at least the linear APR for positive fee and
  liquidity. It is not for a small daily rate: with a fee of 1 on a liquidity of \<open>10^16\<close>
  the rate \<open>10^(-16)\<close> is below half the spacing of the binary64 numbers at 1, so
  \<^verbatim>\<open>1 + Number(dailyRate)\<close> is 1 and the compounded APR is 0, while the linear APR, computed
  in decimals, is positive. This holds for every \<^verbatim>\<open>Math.pow\<close> with \<open>pow(1, 365) = 1\<close>.
\<close>

lemma small_rate_values:
  "js_add (Fin 1) (fl (1 / 10000000000000000)) = Fin 1"
  "fl (73 / 20000000000000) = Fin (2259240571695819 / 618970019642690137449562112)"
  by code_simp+

lemma fl_zero [simp]: "fl 0 = Fin 0"
  by (simp add: fl_def)

theorem compounded_apr_below_linear:
  assumes "16 \<le> dp" and "pow (Fin 1) (Fin 365) = Fin 1"
  shows "calculateCompoundedAPR pow dp 1 10000000000000000 (Fin 365) = Fin 0
     \<and> calculateAPR dp 1 10000000000000000
         = Fin (2259240571695819 / 618970019642690137449562112)
     \<and> js_lt (calculateCompoundedAPR pow dp 1 10000000000000000 (Fin 365))
             (calculateAPR dp 1 10000000000000000)"
proof -
  from assms(1) obtain k where k: "dp = k + 16"
    by (metis add.commute le_Suc_ex)
  have "(1 / 10000000000000000 :: rat) * 10 ^ dp = of_int (10 ^ k)"
    by (simp add: k power_add)
  then have r: "big_round dp (1 / 10000000000000000) = 1 / 10000000000000000"
    by (rule big_round_exact)
  have d: "big_div dp 1 10000000000000000 = Inr (1 / 10000000000000000)"
    using r by (simp add: big_div_def)
  have "calculateCompoundedAPR pow dp 1 10000000000000000 (Fin 365)
      = js_mul (js_sub (pow (js_add (Fin 1) (fl (1 / 10000000000000000))) (Fin 365)) (Fin 1))
          (Fin 100)"
    by (simp add: calculateCompoundedAPR_def d num_of_big_def)
  also have "\<dots> = js_mul (js_sub (Fin 1) (Fin 1)) (Fin 100)"
    by (simp only: small_rate_values assms(2))
  also have "\<dots> = Fin 0"
    by (simp add: js_sub_def)
  finally have c: "calculateCompoundedAPR pow dp 1 10000000000000000 (Fin 365) = Fin 0" .
  have "calculateAPR dp 1 10000000000000000 = fl (1 / 10000000000000000 * 365 * 100)"
    by (simp add: calculateAPR_def d num_of_big_def)
  also have "\<dots> = fl (73 / 20000000000000)"
    by simp
  finally have a: "calculateAPR dp 1 10000000000000000
      = Fin (2259240571695819 / 618970019642690137449562112)"
    by (simp only: small_rate_values)
  show ?thesis
    unfolding c a by simp
qed

theorem compounded_apr_below_linear_witness:
  "(16::nat) \<le> 20 \<and> pow_ref (Fin 1) (Fin 365) = Fin 1
   \<and> calculateCompoundedAPR pow_ref 20 1 10000000000000000 (Fin 365) = Fin 0
   \<and> js_lt (calculateCompoundedAPR pow_ref 20 1 10000000000000000 (Fin 365))
           (calculateAPR 20 1 10000000000000000)"
proof -
  have 1: "(16::nat) \<le> 20"
    by simp
  have 2: "pow_ref (Fin 1) (Fin 365) = Fin 1"
    by code_simp
  from compounded_apr_below_linear [of 20 pow_ref, OF 1 2] 1 2 show ?thesis
    by simp
qed

section \<open>Rounding to binary64\<close>

lemma pow2_powi: "pow2 e = 2 powi e"
proof (cases "0 \<le> e")
  case True
  then show ?thesis
    by (simp add: pow2_def power_int_def)
next
  case False
  then have "pow2 e = inverse (2 ^ nat (- e))"
    by (simp add: pow2_def inverse_eq_divide)
  also have "\<dots> = 2 powi e"
    using False by (simp add: power_int_def power_one_over inverse_eq_divide)
  finally show ?thesis .
qed

lemma pow2_pos [simp]: "0 < pow2 e"
  by (simp add: pow2_powi)

lemma pow2_nonzero [simp]: "pow2 e \<noteq> 0"
  by (simp add: pow2_powi)

lemma pow2_nonneg [simp]: "0 \<le> pow2 e"
  using pow2_pos [of e] by (simp only: less_imp_le)

lemma pow2_add: "pow2 (a + b) = pow2 a * pow2 b"
  by (simp add: pow2_powi power_int_add)

lemma pow2_mono: "a \<le> b \<Longrightarrow> pow2 a \<le> pow2 b"
  by (simp add: pow2_powi power_int_increasing)

lemma pow2_strict_mono: "a < b \<Longrightarrow> pow2 a < pow2 b"
  by (simp add: pow2_powi power_int_strict_increasing)

lemma pow2_nat: "0 \<le> e \<Longrightarrow> pow2 e = of_int (2 ^ nat e)"
  by (simp add: pow2_def)

lemma rat_int_cmp:
  "(2 * rat_of_int m < rat_of_int d) = (2 * m < d)"
  "(rat_of_int d < 2 * rat_of_int m) = (d < 2 * m)"
  using of_int_less_iff [of "2 * m" d, where 'a = rat]
    of_int_less_iff [of d "2 * m", where 'a = rat]
  by simp_all

lemma round_half_even_rne:
  assumes "0 < d"
  shows "round_half_even n d = rne (of_int n / of_int d)"
proof -
  let ?q = "of_int n / of_int d :: rat"
  have f: "\<lfloor>?q\<rfloor> = n div d"
    by (simp add: floor_divide_of_int_eq)
  have r: "?q - of_int (n div d) = of_int (n mod d) / of_int d"
    using assms by (simp add: field_simps flip: of_int_mult of_int_add)
  have lt: "(of_int (n mod d) / of_int d < (1 / 2 :: rat)) = (2 * (n mod d) < d)"
    using assms by (simp add: field_simps rat_int_cmp)
  have gt: "((1 / 2 :: rat) < of_int (n mod d) / of_int d) = (d < 2 * (n mod d))"
    using assms by (simp add: field_simps rat_int_cmp)
  show ?thesis
    by (simp only: round_half_even_def rne_def Let_def f r lt gt)
qed

lemma rne_cases: "rne q = \<lfloor>q\<rfloor> \<or> rne q = \<lfloor>q\<rfloor> + 1"
  by (simp add: rne_def Let_def)

lemma rne_error: "\<bar>of_int (rne q) - q\<bar> \<le> 1 / 2"
proof -
  have "of_int \<lfloor>q\<rfloor> \<le> q" "q < of_int \<lfloor>q\<rfloor> + 1"
    by linarith+
  then show ?thesis
    by (auto simp: rne_def Let_def) 
qed

lemma rne_of_int [simp]: "rne (of_int k) = k"
  by (simp add: rne_def)

lemma rne_zero [simp]: "rne 0 = 0"
  by (simp add: rne_def)

lemma rne_mono:
  assumes "p \<le> q"
  shows "rne p \<le> rne q"
proof (cases "\<lfloor>p\<rfloor> = \<lfloor>q\<rfloor>")
  case True
  with assms have "p - of_int \<lfloor>p\<rfloor> \<le> q - of_int \<lfloor>q\<rfloor>"
    by simp
  with True show ?thesis
    by (auto simp: rne_def Let_def)
next
  case False
  with assms have "\<lfloor>p\<rfloor> < \<lfloor>q\<rfloor>"
    by (simp add: floor_mono order.strict_iff_order)
  moreover have "rne p \<le> \<lfloor>p\<rfloor> + 1" "\<lfloor>q\<rfloor> \<le> rne q"
    using rne_cases [of p] rne_cases [of q] by auto
  ultimately show ?thesis
    by linarith
qed

lemma pow2_int_le: "0 \<le> e \<Longrightarrow> (pow2 e \<le> of_int k) = (2 ^ nat e \<le> k)"
  by (simp only: pow2_nat of_int_le_iff)

lemma pow2_int_less: "0 \<le> e \<Longrightarrow> (of_int k < pow2 e) = (k < 2 ^ nat e)"
  by (simp only: pow2_nat of_int_less_iff)

lemma floor_log2_bounds:
  assumes "0 < x"
  shows "pow2 (floor_log2 x) \<le> x \<and> x < pow2 (floor_log2 x + 1)"
proof -
  obtain a b where q: "quotient_of x = (a, b)"
    by (cases "quotient_of x")
  then have b: "0 < b" and x: "x = of_int a / of_int b"
    using quotient_of_denom_pos quotient_of_div by blast+
  with assms have a: "0 < a"
    by (simp add: zero_less_divide_iff)
  define d where "d = bitlen a - bitlen b"
  have ba: "2 ^ nat (bitlen a - 1) \<le> a" "a < 2 ^ nat (bitlen a)"
    using bitlen_bounds [OF a] by auto
  have bb: "2 ^ nat (bitlen b - 1) \<le> b" "b < 2 ^ nat (bitlen b)"
    using bitlen_bounds [OF b] by auto
  have la: "1 \<le> bitlen a" "1 \<le> bitlen b"
    using a b by (auto simp: bitlen_alt_def)
  have ra: "pow2 (bitlen a - 1) \<le> of_int a" "of_int a < pow2 (bitlen a)"
    using ba la pow2_int_le [of "bitlen a - 1" a] pow2_int_less [of "bitlen a" a] by auto
  have rb: "pow2 (bitlen b - 1) \<le> of_int b" "of_int b < pow2 (bitlen b)"
    using bb la pow2_int_le [of "bitlen b - 1" b] pow2_int_less [of "bitlen b" b] by auto
  have lo: "pow2 (d - 1) < x"
  proof -
    have "pow2 (d - 1) * of_int b < pow2 (d - 1) * pow2 (bitlen b)"
      using rb(2) by simp
    also have "\<dots> = pow2 (bitlen a - 1)"
      by (simp add: d_def flip: pow2_add)
    also have "\<dots> \<le> of_int a"
      by (rule ra(1))
    finally show ?thesis
      using b by (simp add: x pos_less_divide_eq)
  qed
  have hi: "x < pow2 (d + 1)"
  proof -
    have "of_int a < pow2 (bitlen a)"
      by (rule ra(2))
    also have "\<dots> = pow2 (d + 1) * pow2 (bitlen b - 1)"
      by (simp add: d_def flip: pow2_add)
    also have "\<dots> \<le> pow2 (d + 1) * of_int b"
      using rb(1) by simp
    finally show ?thesis
      using b by (simp add: x pos_divide_less_eq)
  qed
  have test: "(if 0 \<le> d then b * 2 ^ nat d \<le> a else b \<le> a * 2 ^ nat (- d)) = (pow2 d \<le> x)"
  proof (cases "0 \<le> d")
    case True
    have "(pow2 d \<le> x) = (of_int (2 ^ nat d) * of_int b \<le> (of_int a :: rat))"
      using b True by (simp add: x pos_le_divide_eq pow2_nat)
    also have "\<dots> = (2 ^ nat d * b \<le> a)"
      by (simp only: flip: of_int_mult) (simp only: of_int_le_iff)
    finally show ?thesis
      using True by (simp add: mult.commute)
  next
    case False
    then have p: "pow2 d = 1 / of_int (2 ^ nat (- d))"
      by (simp add: pow2_def)
    have "(pow2 d \<le> x) = (of_int b \<le> (of_int a :: rat) * of_int (2 ^ nat (- d)))"
      using b by (simp add: x p field_simps)
    also have "\<dots> = (b \<le> a * 2 ^ nat (- d))"
      by (simp only: flip: of_int_mult) (simp only: of_int_le_iff)
    finally show ?thesis
      using False by simp
  qed
  have "floor_log2 x =
      (if (if 0 \<le> d then b * 2 ^ nat d \<le> a else b \<le> a * 2 ^ nat (- d)) then d else d - 1)"
    by (simp add: floor_log2_def q d_def Let_def)
  then have fl2: "floor_log2 x = (if pow2 d \<le> x then d else d - 1)"
    by (simp only: test)
  show ?thesis
  proof (cases "pow2 d \<le> x")
    case True
    with hi fl2 show ?thesis by simp
  next
    case False
    with lo fl2 show ?thesis by simp
  qed
qed

lemma fl_pos:
  assumes "0 < x"
  shows "fl x = (let e = max (floor_log2 x - 52) (- 1074); m = rne (x / pow2 e)
                 in if 971 < e \<or> (e = 971 \<and> 2 ^ 53 \<le> m) then PInf
                    else Fin (of_int m * pow2 e))"
proof -
  obtain a b where q: "quotient_of x = (a, b)"
    by (cases "quotient_of x")
  then have b: "0 < b" and x: "x = of_int a / of_int b"
    using quotient_of_denom_pos quotient_of_div by blast+
  define e where "e = max (floor_log2 x - 52) (- 1074)"
  have m: "(if 0 \<le> e then round_half_even a (b * 2 ^ nat e)
            else round_half_even (a * 2 ^ nat (- e)) b) = rne (x / pow2 e)"
  proof (cases "0 \<le> e")
    case True
    have "round_half_even a (b * 2 ^ nat e) = rne (of_int a / of_int (b * 2 ^ nat e))"
      using b by (intro round_half_even_rne) simp
    also have "of_int a / of_int (b * 2 ^ nat e) = x / pow2 e"
      using True by (simp add: x pow2_nat)
    finally show ?thesis
      using True by simp
  next
    case False
    have "round_half_even (a * 2 ^ nat (- e)) b = rne (of_int (a * 2 ^ nat (- e)) / of_int b)"
      using b by (rule round_half_even_rne)
    also have "of_int (a * 2 ^ nat (- e)) / of_int b = x / pow2 e"
      using False by (simp add: x pow2_def)
    finally show ?thesis
      using False by simp
  qed
  have sx: "sgn x = 1" "\<bar>x\<bar> = x" "x \<noteq> 0"
    using assms by simp_all
  show ?thesis
    unfolding fl_def sx q Let_def prod.case e_def [symmetric] m
    using assms by auto
qed

lemma fl_pos_Fin:
  assumes "0 < x" and "fl x = Fin u"
  shows "u = of_int (rne (x / pow2 (max (floor_log2 x - 52) (- 1074))))
           * pow2 (max (floor_log2 x - 52) (- 1074))"
  using assms(2) unfolding fl_pos [OF assms(1)] Let_def
  by (simp split: if_splits)

lemma floor_log2_mono:
  assumes "0 < x" "x \<le> y"
  shows "floor_log2 x \<le> floor_log2 y"
proof (rule ccontr)
  assume "\<not> floor_log2 x \<le> floor_log2 y"
  then have "floor_log2 y + 1 \<le> floor_log2 x"
    by simp
  then have "pow2 (floor_log2 y + 1) \<le> pow2 (floor_log2 x)"
    by (rule pow2_mono)
  moreover have "pow2 (floor_log2 x) \<le> x" "y < pow2 (floor_log2 y + 1)"
    using floor_log2_bounds [of x] floor_log2_bounds [of y] assms by auto
  ultimately show False
    using assms by linarith
qed

lemma pow2_diff: "pow2 a / pow2 b = pow2 (a - b)"
proof -
  have "pow2 (a - b) * pow2 b = pow2 a"
    by (simp flip: pow2_add)
  then show ?thesis
    by (simp add: divide_eq_eq)
qed

text \<open>Rounding to binary64 is monotone (on the positive numbers, where it is needed).\<close>

lemma fl_mono_pos:
  assumes x: "0 < x" and xy: "x \<le> y" and u: "fl x = Fin u" and v: "fl y = Fin v"
  shows "u \<le> v"
proof -
  have y: "0 < y"
    using x xy by simp
  define ex where "ex = max (floor_log2 x - 52) (- 1074)"
  define ey where "ey = max (floor_log2 y - 52) (- 1074)"
  have ue: "u = of_int (rne (x / pow2 ex)) * pow2 ex"
    using fl_pos_Fin [OF x u] by (simp add: ex_def)
  have ve: "v = of_int (rne (y / pow2 ey)) * pow2 ey"
    using fl_pos_Fin [OF y v] by (simp add: ey_def)
  have le: "ex \<le> ey"
    using floor_log2_mono [OF x xy] by (simp add: ex_def ey_def)
  show ?thesis
  proof (cases "ex = ey")
    case True
    have "x / pow2 ey \<le> y / pow2 ey"
      using xy by (simp add: divide_right_mono)
    then have "rne (x / pow2 ey) \<le> rne (y / pow2 ey)"
      by (rule rne_mono)
    then have "(of_int (rne (x / pow2 ey)) :: rat) \<le> of_int (rne (y / pow2 ey))"
      by simp
    then show ?thesis
      unfolding ue ve True by (simp add: mult_right_mono)
  next
    case False
    with le have lt: "ex < ey"
      by simp
    define Ly where "Ly = floor_log2 y"
    have ey: "ey = Ly - 52"
      using lt by (auto simp: ex_def ey_def Ly_def)
    have Lx: "floor_log2 x + 1 \<le> Ly"
      using lt by (auto simp: ex_def ey Ly_def)
    have exLy: "ex \<le> Ly"
      using lt ey by simp
    define t where "t = pow2 Ly"
    have xt: "x \<le> t"
    proof -
      have "x < pow2 (floor_log2 x + 1)"
        using floor_log2_bounds [OF x] by simp
      also have "\<dots> \<le> pow2 Ly"
        using Lx by (rule pow2_mono)
      finally show ?thesis
        by (simp add: t_def)
    qed
    have ty: "t \<le> y"
      using floor_log2_bounds [OF y] by (simp add: t_def Ly_def)
    have "u \<le> t"
    proof -
      have k: "t / pow2 ex = of_int (2 ^ nat (Ly - ex))"
        using exLy by (simp add: t_def pow2_diff pow2_nat)
      have "x / pow2 ex \<le> t / pow2 ex"
        using xt by (simp add: divide_right_mono)
      then have "rne (x / pow2 ex) \<le> rne (t / pow2 ex)"
        by (rule rne_mono)
      then have "rne (x / pow2 ex) \<le> 2 ^ nat (Ly - ex)"
        unfolding k by (simp only: rne_of_int)
      then have "(of_int (rne (x / pow2 ex)) :: rat) \<le> of_int (2 ^ nat (Ly - ex))"
        by (simp only: of_int_le_iff)
      then have "u \<le> of_int (2 ^ nat (Ly - ex)) * pow2 ex"
        unfolding ue by (simp add: mult_right_mono)
      also have "\<dots> = t"
        unfolding k [symmetric] by simp
      finally show ?thesis .
    qed
    moreover have "t \<le> v"
    proof -
      have k: "t / pow2 ey = of_int (2 ^ 52)"
        by (simp add: t_def pow2_diff ey pow2_nat)
      have "t / pow2 ey \<le> y / pow2 ey"
        using ty by (simp add: divide_right_mono)
      then have "rne (t / pow2 ey) \<le> rne (y / pow2 ey)"
        by (rule rne_mono)
      then have "2 ^ 52 \<le> rne (y / pow2 ey)"
        unfolding k by (simp only: rne_of_int)
      then have "(of_int (2 ^ 52) :: rat) \<le> of_int (rne (y / pow2 ey))"
        by (simp only: of_int_le_iff)
      then have "of_int (2 ^ 52) * pow2 ey \<le> v"
        unfolding ve by (simp add: mult_right_mono)
      moreover have "of_int (2 ^ 52) * pow2 ey = t"
        unfolding k [symmetric] by simp
      ultimately show ?thesis
        by simp
    qed
    ultimately show ?thesis
      by simp
  qed
qed

lemma fl_nonpos:
  assumes "x \<le> 0" and "fl x = Fin u"
  shows "u \<le> 0"
proof (cases "x = 0")
  case True
  with assms show ?thesis by (simp add: fl_def)
next
  case False
  with assms(1) have neg: "x < 0" by simp
  obtain a b where q: "quotient_of (- x) = (a, b)"
    by (cases "quotient_of (- x)")
  then have b: "0 < b" and x: "- x = of_int a / of_int b"
    using quotient_of_denom_pos quotient_of_div by blast+
  have a: "0 \<le> a"
  proof -
    have "0 \<le> (of_int a :: rat) / of_int b"
      unfolding x [symmetric] using neg by simp
    with b show ?thesis
      by (simp add: zero_le_divide_iff)
  qed
  have r: "0 \<le> round_half_even n d" if "0 \<le> n" "0 < d" for n d
  proof -
    have "0 \<le> rne (of_int n / of_int d)"
      using rne_mono [of 0 "of_int n / of_int d"] that by simp
    then show ?thesis
      using that by (simp add: round_half_even_rne)
  qed
  have "0 \<le> round_half_even a (b * 2 ^ nat e)" "0 \<le> round_half_even (a * 2 ^ nat (- e)) b" for e
    using a b by (auto intro!: r)
  then show ?thesis
    using assms(2) neg False
    by (auto simp: fl_def q Let_def sgn_if mult_le_0_iff split: if_splits)
qed

subsection \<open>Error bounds\<close>

lemma fl_neg: "fl (- x) = js_neg (fl x)"
proof (cases "x = 0")
  case True
  then show ?thesis by simp
next
  case False
  obtain a b where q: "quotient_of \<bar>x\<bar> = (a, b)"
    by (cases "quotient_of \<bar>x\<bar>")
  define e where "e = max (floor_log2 \<bar>x\<bar> - 52) (- 1074)"
  define m where "m = (if 0 \<le> e then round_half_even a (b * 2 ^ nat e)
              else round_half_even (a * 2 ^ nat (- e)) b)"
  define ov where "ov = (971 < e \<or> (e = 971 \<and> 2 ^ 53 \<le> m))"
  have 1: "fl x = (if ov then (if 0 < x then PInf else NInf)
                   else Fin (sgn x * (of_int m * pow2 e)))"
    unfolding fl_def q Let_def prod.case e_def [symmetric] m_def [symmetric] ov_def [symmetric]
    using False by simp
  have 2: "fl (- x) = (if ov then (if 0 < - x then PInf else NInf)
                   else Fin (sgn (- x) * (of_int m * pow2 e)))"
    unfolding fl_def abs_minus_cancel q Let_def prod.case e_def [symmetric] m_def [symmetric]
      ov_def [symmetric]
    using False by simp
  show ?thesis
    unfolding 1 2 using False by (auto simp: sgn_if)
qed

lemma fl_nonneg:
  assumes "0 \<le> x" and "fl x = Fin u"
  shows "0 \<le> u"
proof -
  have "fl (- x) = Fin (- u)"
    using assms(2) by (simp add: fl_neg)
  from fl_nonpos [OF _ this] assms(1) show ?thesis
    by simp
qed

text \<open>On the interval from -4 to 4 rounding moves a value by at most \<open>2^(-51)\<close>.\<close>

lemma fl_error_pos:
  assumes "0 < x" and "x \<le> 4"
  shows "\<exists>u. fl x = Fin u \<and> \<bar>u - x\<bar> \<le> 1 / 2 ^ 51"
proof -
  define e where "e = max (floor_log2 x - 52) (- 1074)"
  define m where "m = rne (x / pow2 e)"
  have "pow2 (floor_log2 x) \<le> x"
    using floor_log2_bounds [OF assms(1)] by simp
  also have "x < pow2 3"
    using assms(2) by (simp add: pow2_def)
  finally have "floor_log2 x < 3"
    using pow2_mono [of 3 "floor_log2 x"] by (cases "floor_log2 x < 3") auto
  then have e: "e \<le> - 50"
    by (simp add: e_def)
  have u: "fl x = Fin (of_int m * pow2 e)"
    using e unfolding fl_pos [OF assms(1)] Let_def e_def [symmetric] m_def [symmetric]
    by simp
  have "\<bar>of_int m - x / pow2 e\<bar> \<le> 1 / 2"
    unfolding m_def by (rule rne_error)
  then have "\<bar>of_int m - x / pow2 e\<bar> * pow2 e \<le> 1 / 2 * pow2 e"
    by (intro mult_right_mono) simp_all
  moreover have "\<bar>of_int m - x / pow2 e\<bar> * pow2 e = \<bar>of_int m * pow2 e - x\<bar>"
  proof -
    have "\<bar>of_int m - x / pow2 e\<bar> * pow2 e = \<bar>(of_int m - x / pow2 e) * pow2 e\<bar>"
      by (simp add: abs_mult)
    also have "(of_int m - x / pow2 e) * pow2 e = of_int m * pow2 e - x"
      by (simp add: algebra_simps)
    finally show ?thesis .
  qed
  moreover have "pow2 e \<le> pow2 (- 50)"
    using e by (rule pow2_mono)
  then have "1 / 2 * pow2 e \<le> 1 / 2 ^ 51"
    by (simp add: pow2_def)
  ultimately have "\<bar>of_int m * pow2 e - x\<bar> \<le> 1 / 2 ^ 51"
    by linarith
  with u show ?thesis
    by blast
qed

lemma fl_error:
  assumes "\<bar>x\<bar> \<le> 4"
  shows "\<exists>u. fl x = Fin u \<and> \<bar>u - x\<bar> \<le> 1 / 2 ^ 51"
proof -
  consider "x = 0" | "0 < x" | "x < 0"
    by linarith
  then show ?thesis
  proof cases
    case 1
    then show ?thesis by simp
  next
    case 2
    with assms show ?thesis
      by (intro fl_error_pos) simp_all
  next
    case 3
    with assms obtain u where u: "fl (- x) = Fin u" "\<bar>u - (- x)\<bar> \<le> 1 / 2 ^ 51"
      using fl_error_pos [of "- x"] by auto
    have "fl x = js_neg (fl (- x))"
      using fl_neg [of "- x"] by simp
    then have "fl x = Fin (- u)"
      by (simp add: u)
    moreover have "\<bar>- u - x\<bar> = \<bar>u - (- x)\<bar>"
      by (simp add: abs_minus_commute)
    ultimately show ?thesis
      using u(2) by auto
  qed
qed

lemma big_round_nonneg: "0 \<le> q \<Longrightarrow> 0 \<le> big_round dp q"
  by (simp add: big_round_def sgn_if)

lemma replicate_snoc: "replicate (Suc k) x = replicate k x @ [x]"
  by (simp add: replicate_append_same)

text \<open>
  The sum of \<open>k\<close> equal squares, added one by one: each product and each sum is rounded
  once, by at most \<open>\<eta>\<close>, as long as the partial sums stay below 4.
\<close>

lemma sum_squares_error:
  fixes s p :: rat
  assumes p: "fl (s * s) = Fin p" "0 \<le> p" "\<bar>p - s * s\<bar> \<le> 1 / 2 ^ 51"
    and bound: "of_nat k * (s * s + 2 / 2 ^ 51) \<le> 4"
  shows "\<exists>a. foldl (\<lambda>a b. js_add a (js_mul b b)) (Fin 0) (replicate k (Fin s)) = Fin a
           \<and> 0 \<le> a \<and> \<bar>a - of_nat k * (s * s)\<bar> \<le> of_nat k * (2 / 2 ^ 51)"
  using bound
proof (induction k)
  case 0
  show ?case by simp
next
  case (Suc k)
  define h :: rat where "h = 1 / 2 ^ 51"
  define c where "c = s * s"
  have h: "0 < h"
    by (simp add: h_def)
  have c: "0 \<le> c"
    by (simp add: c_def)
  have pc: "\<bar>p - c\<bar> \<le> h"
    using p(3) by (simp add: h_def c_def)
  have bS: "(of_nat k + 1) * (c + 2 * h) \<le> 4"
    using Suc.prems by (simp add: h_def c_def add.commute)
  have "of_nat k * (c + 2 * h) \<le> (of_nat k + 1) * (c + 2 * h)"
    using c h by (intro mult_right_mono) simp_all
  with bS have "of_nat k * (s * s + 2 / 2 ^ 51) \<le> 4"
    by (simp add: h_def c_def)
  from Suc.IH [OF this] obtain a
    where a: "foldl (\<lambda>a b. js_add a (js_mul b b)) (Fin 0) (replicate k (Fin s)) = Fin a"
      and a0: "0 \<le> a" and ae: "\<bar>a - of_nat k * c\<bar> \<le> of_nat k * (2 * h)"
    by (auto simp: h_def c_def)
  have kc: "(of_nat k + 1) * (c + 2 * h) = of_nat k * c + of_nat k * (2 * h) + c + 2 * h"
    by (simp add: algebra_simps)
  have "a + p \<le> of_nat k * c + of_nat k * (2 * h) + c + h"
    using ae pc by linarith
  also have "\<dots> \<le> 4"
    using bS h unfolding kc by linarith
  finally have "\<bar>a + p\<bar> \<le> 4"
    using a0 p(2) by simp
  from fl_error [OF this] obtain a' where a': "fl (a + p) = Fin a'" "\<bar>a' - (a + p)\<bar> \<le> h"
    by (auto simp: h_def)
  have nonneg: "0 \<le> a'"
    using a0 p(2) by (intro fl_nonneg [OF _ a'(1)]) simp
  have "\<bar>a' - (of_nat k + 1) * c\<bar> \<le> (of_nat k + 1) * (2 * h)"
  proof -
    have "(of_nat k + 1) * c = of_nat k * c + c" "(of_nat k + 1) * (2 * h) = of_nat k * (2 * h) + 2 * h"
      by (simp_all add: algebra_simps)
    then show ?thesis
      using a'(2) ae pc by linarith
  qed
  then have err: "\<bar>a' - of_nat (Suc k) * (s * s)\<bar> \<le> of_nat (Suc k) * (2 / 2 ^ 51)"
    by (simp only: h_def c_def of_nat_Suc add.commute [of 1] mult_2 times_divide_eq_right
        mult_1_right flip: mult_2)
  have sum: "foldl (\<lambda>a b. js_add a (js_mul b b)) (Fin 0) (replicate (Suc k) (Fin s)) = Fin a'"
    unfolding replicate_snoc by (simp add: a p(1) a'(1))
  from sum nonneg err show ?case
    by blast
qed

lemma equal_shares_index_error:
  fixes n :: nat
  assumes n0: "0 < n" and n40: "n \<le> 2 ^ 40" and ndp: "of_nat n \<le> (10::rat) ^ dp"
  shows "\<exists>c. js_sub (Fin 1) (foldl (\<lambda>a b. js_add a (js_mul b b)) (Fin 0)
                 (replicate n (num_of_big (big_round dp (1 / of_nat n))))) = Fin c
           \<and> \<bar>c - (1 - 1 / of_nat n)\<bar> \<le> (2 * of_nat n + 4) / 2 ^ 51 + 3 / (2 * 10 ^ dp)"
proof -
  define N :: rat where "N = of_nat n"
  define h :: rat where "h = 1 / 2 ^ 51"
  define d :: rat where "d = 1 / (2 * 10 ^ dp)"
  define q where "q = big_round dp (1 / N)"
  have N1: "1 \<le> N"
    using n0 by (simp add: N_def)
  then have N0: "0 < N"
    by simp
  have h0: "0 < h"
    by (simp add: h_def)
  have d0: "0 < d"
    by (simp add: d_def)
  have "N \<le> 2 ^ 40"
    using n40 unfolding N_def by (metis of_nat_le_iff of_nat_numeral of_nat_power)
  then have "N * h \<le> 2 ^ 40 * h"
    using h0 by (intro mult_right_mono) simp_all
  also have "2 ^ 40 * h = 1 / 2 ^ 11"
    by (simp add: h_def)
  finally have Nh: "N * h \<le> 1 / 2 ^ 11" .
  define r where "r = 1 / N"
  have r0: "0 < r" and r1: "r \<le> 1" and Nr: "N * r = 1"
    using N0 N1 by (simp_all add: r_def)
  have hN: "h \<le> r / 10"
  proof -
    have "h = (N * h) * r"
      using N0 by (simp add: r_def)
    also have "\<dots> \<le> (1 / 2 ^ 11) * r"
      using Nh r0 by (intro mult_right_mono) simp_all
    also have "\<dots> \<le> r / 10"
      using r0 by simp
    finally show ?thesis .
  qed
  have dN: "d \<le> r / 2"
  proof -
    have "2 * N \<le> 2 * 10 ^ dp"
      using ndp by (simp add: N_def)
    then have "1 / (2 * 10 ^ dp) \<le> 1 / (2 * N)"
      using N0 by (intro divide_left_mono) simp_all
    then show ?thesis
      by (simp add: d_def r_def)
  qed
  have qe: "\<bar>q - r\<bar> \<le> d"
    unfolding q_def d_def r_def by (rule big_round_error)
  have q0: "0 \<le> q"
    unfolding q_def using N0 by (intro big_round_nonneg) simp
  have "q \<le> r + d"
    using qe by linarith
  with q0 dN r1 have "\<bar>q\<bar> \<le> 4"
    by simp
  from fl_error [OF this] obtain s where s: "fl q = Fin s" "\<bar>s - q\<bar> \<le> h"
    by (auto simp: h_def)
  have s0: "0 \<le> s"
    using q0 s(1) by (rule fl_nonneg)
  have se: "\<bar>s - r\<bar> \<le> d + h"
    using qe s(2) by linarith
  have sN: "s \<le> 8 / 5 * r"
    using se dN hN by linarith
  have ss: "s * s \<le> (8 / 5 * r) * (8 / 5 * r)"
    using s0 sN by (intro mult_mono) simp_all
  have Nss: "N * (s * s) \<le> 64 / 25"
  proof -
    have "N * (s * s) \<le> N * ((8 / 5 * r) * (8 / 5 * r))"
      using ss N0 by (intro mult_left_mono) simp_all
    also have "\<dots> = 64 / 25 * ((N * r) * r)"
      by (simp add: algebra_simps)
    also have "\<dots> = 64 / 25 * r"
      by (simp add: Nr)
    also have "\<dots> \<le> 64 / 25 * 1"
      using r1 by (intro mult_left_mono) simp_all
    finally show ?thesis
      by simp
  qed
  have "s * s \<le> N * (s * s)"
    using N1 mult_right_mono [of 1 N "s * s"] by simp
  with Nss have "\<bar>s * s\<bar> \<le> 4"
    by simp
  from fl_error [OF this] obtain p where p: "fl (s * s) = Fin p" "\<bar>p - s * s\<bar> \<le> h"
    by (auto simp: h_def)
  have p0: "0 \<le> p"
    using p(1) by (intro fl_nonneg [OF _ p(1)]) simp
  have bound: "of_nat n * (s * s + 2 / 2 ^ 51) \<le> 4"
  proof -
    have "N * (s * s + 2 * h) = N * (s * s) + 2 * (N * h)"
      by (simp add: algebra_simps)
    also have "\<dots> \<le> 64 / 25 + 2 * (1 / 2 ^ 11)"
      using Nss Nh by linarith
    also have "\<dots> \<le> 4"
      by simp
    finally show ?thesis
      by (simp add: N_def h_def)
  qed
  from sum_squares_error [OF p(1) p0 p(2) [unfolded h_def] bound] obtain a
    where a: "foldl (\<lambda>a b. js_add a (js_mul b b)) (Fin 0) (replicate n (Fin s)) = Fin a"
      and a0: "0 \<le> a" and ae: "\<bar>a - N * (s * s)\<bar> \<le> N * (2 * h)"
    by (auto simp: N_def h_def)
  have Nh2: "N * (2 * h) = 2 * (N * h)"
    by simp
  have "\<bar>1 - a\<bar> \<le> 4"
    using a0 ae Nss Nh unfolding Nh2 by (simp add: abs_le_iff)
  from fl_error [OF this] obtain c where c: "fl (1 - a) = Fin c" "\<bar>c - (1 - a)\<bar> \<le> h"
    by (auto simp: h_def)
  have idx: "js_sub (Fin 1) (foldl (\<lambda>a b. js_add a (js_mul b b)) (Fin 0)
                 (replicate n (num_of_big (big_round dp (1 / of_nat n))))) = Fin c"
    using s(1) a c(1) by (simp add: num_of_big_def js_sub_def q_def N_def)
  have Ns: "N * s + 1 \<le> 3"
  proof -
    have "N * s \<le> N * (8 / 5 * r)"
      using sN N0 by (intro mult_left_mono) simp_all
    also have "\<dots> = 8 / 5 * (N * r)"
      by simp
    finally show ?thesis
      by (simp add: Nr)
  qed
  have Ns0: "0 \<le> N * s + 1"
    using N0 s0 by simp
  have sq: "\<bar>N * (s * s) - r\<bar> \<le> 3 * (d + h)"
  proof -
    have "(s - r) * (N * s + 1) = N * (s * s) - (N * r) * s + s - r"
      by (simp add: algebra_simps)
    also have "\<dots> = N * (s * s) - r"
      by (simp add: Nr)
    finally have "\<bar>N * (s * s) - r\<bar> = \<bar>s - r\<bar> * \<bar>N * s + 1\<bar>"
      by (simp flip: abs_mult)
    also have "\<dots> = \<bar>s - r\<bar> * (N * s + 1)"
      using Ns0 by simp
    also have "\<dots> \<le> (d + h) * (N * s + 1)"
      using se Ns0 by (intro mult_right_mono) simp_all
    also have "\<dots> \<le> (d + h) * 3"
      using Ns d0 h0 by (intro mult_left_mono) simp_all
    finally show ?thesis
      by (simp add: mult.commute)
  qed
  have "\<bar>c - (1 - r)\<bar> \<le> h + 2 * (N * h) + 3 * (d + h)"
    using c(2) ae sq unfolding Nh2 by linarith
  also have "\<dots> = (2 * N + 4) * h + 3 * d"
    by (simp add: algebra_simps)
  also have "\<dots> = (2 * of_nat n + 4) / 2 ^ 51 + 3 / (2 * 10 ^ dp)"
    by (simp add: N_def h_def d_def)
  finally show ?thesis
    using idx by (auto simp: N_def r_def)
qed

section \<open>Bin prices\<close>


lemma shortest_decimal_round_trip:
  assumes "fl x = Fin x"
  shows "fl (shortest_decimal x) = Fin x"
proof (cases "List.find (\<lambda>k. decimal_candidates x k \<noteq> []) [1..<18]")
  case None
  with assms show ?thesis
    by (simp add: shortest_decimal_def)
next
  case (Some k)
  then have ne: "decimal_candidates x k \<noteq> []"
    by (auto simp: find_Some_iff)
  then have "hd (decimal_candidates x k) \<in> set (decimal_candidates x k)"
    by (rule hd_in_set)
  then have "fl (hd (decimal_candidates x k)) = Fin x"
    by (auto simp: decimal_candidates_def Let_def split: if_splits)
  with Some show ?thesis
    by (simp add: shortest_decimal_def)
qed

lemma shortest_decimal_pos:
  assumes "fl x = Fin x" and "0 < x"
  shows "0 < shortest_decimal x"
proof (rule ccontr)
  assume "\<not> 0 < shortest_decimal x"
  then have "shortest_decimal x \<le> 0"
    by simp
  from fl_nonpos [OF this shortest_decimal_round_trip [OF assms(1)]] assms(2)
  show False
    by simp
qed

text \<open>Printing and parsing keeps the order of two numbers.\<close>

lemma shortest_decimal_strict_mono:
  assumes x: "fl x = Fin x" and y: "fl y = Fin y" and pos: "0 < x" and lt: "x < y"
  shows "shortest_decimal x < shortest_decimal y"
proof (rule ccontr)
  assume "\<not> shortest_decimal x < shortest_decimal y"
  then have le: "shortest_decimal y \<le> shortest_decimal x"
    by simp
  have "0 < shortest_decimal y"
    using y pos lt by (intro shortest_decimal_pos) simp_all
  from fl_mono_pos [OF this le shortest_decimal_round_trip [OF y]
      shortest_decimal_round_trip [OF x]] lt
  show False
    by simp
qed

lemma calculateBinPrice_zero_base: "calculateBinPrice pow binId binStep 0 = 0"
  by (cases "big_of_num (pow (js_add (Fin 1) (js_div binStep (Fin 10000))) binId)")
    (simp_all add: calculateBinPrice_def Let_def)

lemma overflow_values:
  "js_add (Fin 1) (js_div (Fin 10000) (Fin 10000)) = Fin 2"
  "pow_ref (Fin 2) (Fin 0) = Fin 1"
  "pow_ref (Fin 2) (Fin 1024) = PInf"
  "shortest_decimal 1 = 1"
  by code_simp+

text \<open>
  Claim C6, as stated: for a positive bin step the bin price is strictly increasing in the
  bin id. It is not for a base price of 0, where every bin price is 0. Nor is it where the
  power overflows: with a bin step of 10000 (a multiplier of 2) and a base price of 1 the
  price of bin 0 is 1, and that of bin 1024 is 0, because \<open>2^1024\<close> is \<^verbatim>\<open>Infinity\<close>, the
  constructor of \<^verbatim>\<open>Big\<close> throws and the \<^verbatim>\<open>catch\<close> returns 0.
\<close>

theorem calculateBinPrice_zero_base_counterexample:
  "\<not> calculateBinPrice pow_ref (Fin 0) (Fin 25) 0 < calculateBinPrice pow_ref (Fin 1) (Fin 25) 0
   \<and> calculateBinPrice pow_ref (Fin 0) (Fin 10000) 1 = 1
   \<and> calculateBinPrice pow_ref (Fin 1024) (Fin 10000) 1 = 0
   \<and> \<not> calculateBinPrice pow_ref (Fin 0) (Fin 10000) 1
         < calculateBinPrice pow_ref (Fin 1024) (Fin 10000) 1"
proof -
  have 0: "calculateBinPrice pow_ref (Fin 0) (Fin 10000) 1 = 1"
    unfolding calculateBinPrice_def Let_def overflow_values by (simp add: overflow_values)
  have 1: "calculateBinPrice pow_ref (Fin 1024) (Fin 10000) 1 = 0"
    unfolding calculateBinPrice_def Let_def overflow_values by simp
  show ?thesis
    unfolding 0 1 by (simp add: calculateBinPrice_zero_base)
qed

lemma step_values:
  "fl (1 / 10000) = Fin (7378697629483821 / 73786976294838206464)"
  "fl (1 + 7378697629483821 / 73786976294838206464) = Fin (4504049987333233 / 4503599627370496)"
  by code_simp+

lemma stepMultiplier_lower:
  assumes s: "1 \<le> s" and m: "js_add (Fin 1) (js_div (Fin s) (Fin 10000)) = Fin m"
  shows "4504049987333233 / 4503599627370496 \<le> m"
proof -
  from m obtain d where d: "fl (s / 10000) = Fin d" and md: "fl (1 + d) = Fin m"
    by (cases "fl (s / 10000)") auto
  have "7378697629483821 / 73786976294838206464 \<le> d"
    using s by (intro fl_mono_pos [OF _ _ step_values(1) d]) simp_all
  then have "1 + 7378697629483821 / 73786976294838206464 \<le> 1 + d"
    by simp
  then show ?thesis
    by (intro fl_mono_pos [OF _ _ step_values(2) md]) simp_all
qed

text \<open>
  Claim C6, amended: the bin price is \<open>basePrice * p\<close>, where \<open>p\<close> is the decimal value of
  the number \<^verbatim>\<open>Math.pow(1 + binStep / 10000, binId)\<close>. For a positive base price and a bin
  step of at least one basis point it is strictly increasing in the bin id, as long as the
  step multiplier and the two powers are finite; \<^verbatim>\<open>Math.pow\<close> may be any implementation
  whose relative error at the two bin ids is at most \<open>2^(-40)\<close>.
\<close>

theorem calculateBinPrice_increasing:
  assumes b: "0 < basePrice" and s: "1 \<le> s"
    and m: "js_add (Fin 1) (js_div (Fin s) (Fin 10000)) = Fin m"
    and ij: "i < j"
    and pi: "pow (Fin m) (Fin (of_int i)) = Fin x" and pj: "pow (Fin m) (Fin (of_int j)) = Fin y"
    and dx: "fl x = Fin x" and dy: "fl y = Fin y"
    and ax: "\<bar>x - m powi i\<bar> \<le> m powi i / 2 ^ 40" and ay: "\<bar>y - m powi j\<bar> \<le> m powi j / 2 ^ 40"
  shows "calculateBinPrice pow (Fin (of_int i)) (Fin s) basePrice = basePrice * shortest_decimal x
     \<and> calculateBinPrice pow (Fin (of_int j)) (Fin s) basePrice = basePrice * shortest_decimal y
     \<and> calculateBinPrice pow (Fin (of_int i)) (Fin s) basePrice
         < calculateBinPrice pow (Fin (of_int j)) (Fin s) basePrice"
proof -
  have m1: "4504049987333233 / 4503599627370496 \<le> m"
    using s m by (rule stepMultiplier_lower)
  then have mpos: "0 < m" and mge: "1 \<le> m"
    by simp_all
  have pos: "0 < m powi i"
    using mpos by simp
  have "m powi j = m powi i * m powi (j - i)"
    using mpos by (simp flip: power_int_add)
  moreover have "m powi 1 \<le> m powi (j - i)"
    using ij mge by (intro power_int_increasing) simp_all
  ultimately have step: "m powi i * m \<le> m powi j"
    using pos by (simp add: mult_left_mono)
  have within: "p * (1 - 1 / 2 ^ 40) \<le> z \<and> z \<le> p * (1 + 1 / 2 ^ 40)"
    if "\<bar>z - p\<bar> \<le> p / 2 ^ 40" for z p :: rat
  proof -
    define e where "e = p / 2 ^ 40"
    have eq: "p * (1 - 1 / 2 ^ 40) = p - e" "p * (1 + 1 / 2 ^ 40) = p + e"
      by (simp_all add: e_def algebra_simps)
    have "\<bar>z - p\<bar> \<le> e"
      using that by (simp only: e_def)
    then have "p - e \<le> z \<and> z \<le> p + e"
      by (simp only: abs_le_iff) linarith
    then show ?thesis
      by (simp only: eq)
  qed
  have xu: "x \<le> m powi i * (1 + 1 / 2 ^ 40)"
    using within [OF ax] by simp
  have xl: "m powi i * (1 - 1 / 2 ^ 40) \<le> x"
    using within [OF ax] by simp
  have yl: "m powi j * (1 - 1 / 2 ^ 40) \<le> y"
    using within [OF ay] by simp
  have x0: "0 < x"
  proof -
    have "0 < m powi i * (1 - 1 / 2 ^ 40)"
      using pos by (intro mult_pos_pos) simp_all
    with xl show ?thesis by simp
  qed
  have "1 + 1 / 2 ^ 40 < m * (1 - 1 / 2 ^ 40)"
  proof -
    have "(1 + 1 / 2 ^ 40 :: rat) < 4504049987333233 / 4503599627370496 * (1 - 1 / 2 ^ 40)"
      by simp
    also have "\<dots> \<le> m * (1 - 1 / 2 ^ 40)"
      using m1 by (intro mult_right_mono) simp_all
    finally show ?thesis .
  qed
  then have "m powi i * (1 + 1 / 2 ^ 40) < m powi i * (m * (1 - 1 / 2 ^ 40))"
    using pos by (simp only: mult_less_cancel_left_pos)
  also have "\<dots> = (m powi i * m) * (1 - 1 / 2 ^ 40)"
    by simp
  also have "\<dots> \<le> m powi j * (1 - 1 / 2 ^ 40)"
    using step by (intro mult_right_mono) simp_all
  finally have xy: "x < y"
    using xu yl by linarith
  have sd: "shortest_decimal x < shortest_decimal y"
    using dx dy x0 xy by (rule shortest_decimal_strict_mono)
  have pi': "calculateBinPrice pow (Fin (of_int i)) (Fin s) basePrice = basePrice * shortest_decimal x"
    unfolding calculateBinPrice_def Let_def m pi using x0 by simp
  have pj': "calculateBinPrice pow (Fin (of_int j)) (Fin s) basePrice = basePrice * shortest_decimal y"
    unfolding calculateBinPrice_def Let_def m pj using x0 xy by simp
  show ?thesis
    unfolding pi' pj' using sd b by simp
qed

lemma step_25_values:
  "js_add (Fin 1) (js_div (Fin 25) (Fin 10000)) = Fin (2257429313219461 / 2251799813685248)"
  "pow_ref (Fin (2257429313219461 / 2251799813685248)) (Fin 0) = Fin 1"
  "pow_ref (Fin (2257429313219461 / 2251799813685248)) (Fin 1)
     = Fin (2257429313219461 / 2251799813685248)"
  "fl 1 = Fin 1"
  "fl (2257429313219461 / 2251799813685248) = Fin (2257429313219461 / 2251799813685248)"
  by code_simp+

theorem calculateBinPrice_increasing_witness:
  "calculateBinPrice pow_ref (Fin 0) (Fin 25) 100 < calculateBinPrice pow_ref (Fin 1) (Fin 25) 100"
proof -
  let ?m = "2257429313219461 / 2251799813685248 :: rat"
  have b: "(0::rat) < 100" and s: "(1::rat) \<le> 25" and ij: "(0::int) < 1"
    by simp_all
  have pi: "pow_ref (Fin ?m) (Fin (of_int 0)) = Fin 1"
    and pj: "pow_ref (Fin ?m) (Fin (of_int 1)) = Fin ?m"
    by (simp_all only: of_int_0 of_int_1 step_25_values)
  have ax: "\<bar>1 - ?m powi 0\<bar> \<le> ?m powi 0 / 2 ^ 40" and ay: "\<bar>?m - ?m powi 1\<bar> \<le> ?m powi 1 / 2 ^ 40"
    by simp_all
  from calculateBinPrice_increasing [where pow = pow_ref and x = 1 and y = ?m and i = 0
      and j = 1, OF b s step_25_values(1) ij pi pj step_25_values(4) step_25_values(5) ax ay]
  show ?thesis
    by simp
qed

section \<open>Square roots and relative errors\<close>

lemma isqrt_from_correct:
  assumes "0 \<le> acc" and "acc * acc \<le> n" and "n < (acc + 2 ^ Suc j) * (acc + 2 ^ Suc j)"
  shows "0 \<le> isqrt_from j n acc \<and> isqrt_from j n acc * isqrt_from j n acc \<le> n
       \<and> n < (isqrt_from j n acc + 1) * (isqrt_from j n acc + 1)"
  using assms
proof (induction j arbitrary: acc)
  case 0
  then show ?case
    by (auto simp: algebra_simps)
next
  case (Suc j)
  let ?acc = "if (acc + 2 ^ Suc j) * (acc + 2 ^ Suc j) \<le> n then acc + 2 ^ Suc j else acc"
  have "0 \<le> ?acc"
    using Suc.prems(1) by simp
  moreover have "?acc * ?acc \<le> n"
    using Suc.prems(2) by simp
  moreover have "n < (?acc + 2 ^ Suc j) * (?acc + 2 ^ Suc j)"
    using Suc.prems(3) by (auto simp: algebra_simps)
  ultimately show ?case
    using Suc.IH [of ?acc] by simp
qed

lemma isqrt_correct:
  assumes "0 \<le> n"
  shows "0 \<le> isqrt n \<and> isqrt n * isqrt n \<le> n \<and> n < (isqrt n + 1) * (isqrt n + 1)"
proof -
  have "n < 2 ^ nat (bitlen n)"
  proof (cases "n = 0")
    case True
    then show ?thesis by simp
  next
    case False
    with assms have "0 < n" by simp
    from bitlen_bounds [OF this] show ?thesis by simp
  qed
  also have "(2::int) ^ nat (bitlen n) \<le> 2 ^ Suc (nat (bitlen n)) * 2 ^ Suc (nat (bitlen n))"
  proof -
    have "(2::int) ^ nat (bitlen n) \<le> 2 ^ Suc (nat (bitlen n))"
      by (intro power_increasing) simp_all
    also have "\<dots> \<le> 2 ^ Suc (nat (bitlen n)) * 2 ^ Suc (nat (bitlen n))"
    proof -
      have a: "(1::int) \<le> 2 ^ Suc (nat (bitlen n))"
        by (rule one_le_power) simp
      have "(2::int) ^ Suc (nat (bitlen n)) * 1 \<le> 2 ^ Suc (nat (bitlen n)) * 2 ^ Suc (nat (bitlen n))"
        by (rule mult_left_mono [OF a]) simp
      then show ?thesis by simp
    qed
    finally show ?thesis .
  qed
  finally have "n < (0 + 2 ^ Suc (nat (bitlen n))) * (0 + 2 ^ Suc (nat (bitlen n)))"
    by simp
  from isqrt_from_correct [OF _ _ this] assms show ?thesis
    by (simp add: isqrt_def)
qed

lemma fl_finite:
  assumes "0 < x" and "x < pow2 1023"
  shows "\<exists>u. fl x = Fin u"
proof -
  have "pow2 (floor_log2 x) \<le> x"
    using floor_log2_bounds [OF assms(1)] by simp
  with assms(2) have "pow2 (floor_log2 x) < pow2 1023"
    by simp
  then have "floor_log2 x < 1023"
    using pow2_mono [of 1023 "floor_log2 x"] by (cases "floor_log2 x < 1023") auto
  then have "max (floor_log2 x - 52) (- 1074) < 971"
    by simp
  then show ?thesis
    unfolding fl_pos [OF assms(1)] Let_def by auto
qed

text \<open>The error of rounding: relative \<open>2^(-53)\<close>, or absolute \<open>2^(-1075)\<close> for a subnormal result.\<close>

lemma fl_rel_error:
  assumes "0 < x" and "fl x = Fin u"
  shows "\<bar>u - x\<bar> \<le> x / 2 ^ 53 + pow2 (- 1075)"
proof -
  define L where "L = floor_log2 x"
  define e where "e = max (L - 52) (- 1074)"
  define m where "m = rne (x / pow2 e)"
  have u: "u = of_int m * pow2 e"
    using fl_pos_Fin [OF assms] by (simp add: m_def e_def L_def)
  have "\<bar>of_int m - x / pow2 e\<bar> \<le> 1 / 2"
    unfolding m_def by (rule rne_error)
  then have "\<bar>of_int m - x / pow2 e\<bar> * pow2 e \<le> 1 / 2 * pow2 e"
    by (intro mult_right_mono) simp_all
  moreover have "\<bar>of_int m - x / pow2 e\<bar> * pow2 e = \<bar>u - x\<bar>"
  proof -
    have "\<bar>of_int m - x / pow2 e\<bar> * pow2 e = \<bar>(of_int m - x / pow2 e) * pow2 e\<bar>"
      by (simp add: abs_mult)
    also have "(of_int m - x / pow2 e) * pow2 e = u - x"
      by (simp add: algebra_simps u)
    finally show ?thesis .
  qed
  ultimately have 1: "\<bar>u - x\<bar> \<le> pow2 e / 2"
    by simp
  have "pow2 e \<le> pow2 (L - 52) + pow2 (- 1074)"
  proof (cases "L - 52 \<le> - 1074")
    case True
    then have "e = - 1074" by (simp add: e_def)
    then show ?thesis by simp
  next
    case False
    then have "e = L - 52" by (simp add: e_def)
    then show ?thesis by simp
  qed
  moreover have "pow2 (L - 52) = pow2 L / 2 ^ 52"
    using pow2_diff [of L 52] by (simp add: pow2_def)
  moreover have "pow2 L \<le> x"
    using floor_log2_bounds [OF assms(1)] by (simp add: L_def)
  moreover have "pow2 (- 1074) = 2 * pow2 (- 1075)"
    using pow2_add [of 1 "- 1075"] by (simp add: pow2_def)
  ultimately have "pow2 e / 2 \<le> x / 2 ^ 53 + pow2 (- 1075)"
    by (simp add: field_simps)
  with 1 show ?thesis
    by linarith
qed

lemma pow2_less_cancel: "pow2 a < pow2 b \<Longrightarrow> a < b"
  using pow2_mono [of b a] by (cases "a < b") auto

lemma pow2_le_cancel: "pow2 a \<le> pow2 b \<Longrightarrow> a \<le> b"
  using pow2_strict_mono [of b a] by (cases "a \<le> b") auto

text \<open>A significand below \<open>2^53\<close> with an exponent in range is a binary64 number.\<close>

lemma fl_representable:
  assumes m: "0 < m" "m < 2 ^ 53" and e: "- 1074 \<le> e" "e \<le> 971"
  shows "fl (of_int m * pow2 e) = Fin (of_int m * pow2 e)"
proof -
  define u where "u = of_int m * pow2 e"
  have pos: "0 < u"
    using m(1) by (simp add: u_def)
  define e' where "e' = max (floor_log2 u - 52) (- 1074)"
  have "of_int m < pow2 53"
    using m(2) by (simp add: pow2_int_less)
  then have "u < pow2 53 * pow2 e"
    unfolding u_def by (intro mult_strict_right_mono) simp_all
  then have "u < pow2 (e + 53)"
    by (simp add: pow2_add mult.commute)
  moreover have "pow2 (floor_log2 u) \<le> u"
    using floor_log2_bounds [OF pos] by simp
  ultimately have "pow2 (floor_log2 u) < pow2 (e + 53)"
    by simp
  then have "floor_log2 u < e + 53"
    by (rule pow2_less_cancel)
  with e(1) have le: "e' \<le> e"
    by (simp add: e'_def)
  have "u / pow2 e' = of_int m * pow2 (e - e')"
    by (simp add: u_def flip: pow2_diff)
  also have "pow2 (e - e') = of_int (2 ^ nat (e - e'))"
    using le by (intro pow2_nat) simp
  finally have q: "u / pow2 e' = of_int (m * 2 ^ nat (e - e'))"
    by simp
  have r: "rne (u / pow2 e') = m * 2 ^ nat (e - e')"
    unfolding q by (rule rne_of_int)
  have bk: "of_int (m * 2 ^ nat (e - e')) * pow2 e' = u"
    using q by (simp add: field_simps)
  have "\<not> (971 < e' \<or> (e' = 971 \<and> 2 ^ 53 \<le> m * 2 ^ nat (e - e')))"
  proof (cases "e' = 971")
    case True
    with le e(2) have "e = e'" by simp
    with m(2) True show ?thesis by simp
  next
    case False
    with le e(2) show ?thesis by simp
  qed
  then have "fl u = Fin (of_int (m * 2 ^ nat (e - e')) * pow2 e')"
    unfolding fl_pos [OF pos] Let_def e'_def [symmetric] r by simp
  then show ?thesis
    unfolding bk by (simp add: u_def)
qed

text \<open>Rounding is idempotent: its results are binary64 numbers.\<close>

lemma fl_idem_pos:
  assumes "0 < x" and "fl x = Fin u"
  shows "fl u = Fin u"
proof -
  define e where "e = max (floor_log2 x - 52) (- 1074)"
  define m where "m = rne (x / pow2 e)"
  have u: "u = of_int m * pow2 e"
    using fl_pos_Fin [OF assms] by (simp add: m_def e_def)
  have fin: "\<not> (971 < e \<or> (e = 971 \<and> 2 ^ 53 \<le> m))"
    using assms(2) unfolding fl_pos [OF assms(1)] Let_def e_def [symmetric] m_def [symmetric]
    by (auto split: if_splits)
  have e: "- 1074 \<le> e" "floor_log2 x + 1 \<le> e + 53"
    by (simp_all add: e_def)
  have "x < pow2 (floor_log2 x + 1)"
    using floor_log2_bounds [OF assms(1)] by simp
  also have "\<dots> \<le> pow2 (e + 53)"
    using e(2) by (rule pow2_mono)
  finally have "x / pow2 e < pow2 (e + 53) / pow2 e"
    by (intro divide_strict_right_mono) simp_all
  then have "x / pow2 e \<le> of_int (2 ^ 53)"
    by (simp add: pow2_diff pow2_nat)
  then have "m \<le> rne (of_int (2 ^ 53))"
    unfolding m_def by (rule rne_mono)
  then have m_le: "m \<le> 2 ^ 53"
    by (simp only: rne_of_int)
  have "0 \<le> x / pow2 e"
    using assms(1) by simp
  then have "rne 0 \<le> m"
    unfolding m_def by (rule rne_mono)
  then have m_ge: "0 \<le> m"
    by simp
  consider "m = 0" | "0 < m" "m < 2 ^ 53" | "m = 2 ^ 53"
    using m_le m_ge by linarith
  then show ?thesis
  proof cases
    case 1
    then show ?thesis
      by (simp add: u fl_def)
  next
    case 2
    from fl_representable [OF 2 e(1)] fin show ?thesis
      by (simp add: u)
  next
    case 3
    with fin have "e < 971"
      by auto
    then have "fl (of_int (2 ^ 52) * pow2 (e + 1)) = Fin (of_int (2 ^ 52) * pow2 (e + 1))"
      using e(1) by (intro fl_representable) simp_all
    moreover have "pow2 1 = 2"
      by (simp add: pow2_def)
    then have "of_int (2 ^ 52) * pow2 (e + 1) = u"
      by (simp add: u 3 pow2_add)
    ultimately show ?thesis
      by simp
  qed
qed

text \<open>In the normal range the rounding error is relative.\<close>

lemma fl_normal_error:
  assumes "pow2 (- 1022) \<le> x" and "fl x = Fin u"
  shows "\<bar>u - x\<bar> \<le> x / 2 ^ 53"
proof -
  have pos: "0 < x"
    using assms(1) pow2_pos [of "- 1022"] by linarith
  define L where "L = floor_log2 x"
  define m where "m = rne (x / pow2 (L - 52))"
  have "pow2 (- 1022) < pow2 (L + 1)"
    using floor_log2_bounds [OF pos] assms(1) by (simp add: L_def)
  then have "- 1022 < L + 1"
    by (rule pow2_less_cancel)
  then have e: "max (L - 52) (- 1074) = L - 52"
    by simp
  have u: "u = of_int m * pow2 (L - 52)"
    using fl_pos_Fin [OF pos assms(2)] unfolding L_def [symmetric] e by (simp add: m_def)
  have "\<bar>of_int m - x / pow2 (L - 52)\<bar> \<le> 1 / 2"
    unfolding m_def by (rule rne_error)
  then have "\<bar>of_int m - x / pow2 (L - 52)\<bar> * pow2 (L - 52) \<le> 1 / 2 * pow2 (L - 52)"
    by (intro mult_right_mono) simp_all
  moreover have "\<bar>of_int m - x / pow2 (L - 52)\<bar> * pow2 (L - 52) = \<bar>u - x\<bar>"
  proof -
    have "\<bar>of_int m - x / pow2 (L - 52)\<bar> * pow2 (L - 52)
        = \<bar>(of_int m - x / pow2 (L - 52)) * pow2 (L - 52)\<bar>"
      by (simp add: abs_mult)
    also have "(of_int m - x / pow2 (L - 52)) * pow2 (L - 52) = u - x"
      by (simp add: algebra_simps u)
    finally show ?thesis .
  qed
  ultimately have 1: "\<bar>u - x\<bar> \<le> pow2 (L - 52) / 2"
    by simp
  have "pow2 (L - 52) = pow2 L / 2 ^ 52"
    using pow2_diff [of L 52] by (simp add: pow2_def)
  moreover have "pow2 L \<le> x"
    using floor_log2_bounds [OF pos] by (simp add: L_def)
  ultimately have "pow2 (L - 52) / 2 \<le> x / 2 ^ 53"
    by (simp add: field_simps)
  with 1 show ?thesis
    by linarith
qed

text \<open>
  \<open>sqrt_round\<close> rounds a number \<open>c\<close> that lies at most \<open>2^(-54)\<close> (relatively) above the
  square root.
\<close>

lemma sqrt_round_enclosure:
  assumes lo: "pow2 (- 1022) \<le> a" and hi: "a < pow2 1023"
  shows "\<exists>c. sqrt_round a = fl c \<and> pow2 (- 512) \<le> c \<and> c * c \<le> a * (1 + 3 / 2 ^ 54)
    \<and> a \<le> c * c * (1 + 3 / 2 ^ 54)"
proof -
  have pos: "0 < a"
    using lo pow2_pos [of "- 1022"] by linarith
  obtain n d where q: "quotient_of a = (n, d)"
    by (cases "quotient_of a")
  then have d: "0 < d" and a: "a = of_int n / of_int d"
    using quotient_of_denom_pos quotient_of_div by blast+
  define L where "L = floor_log2 a"
  define k where "k = nat (max 0 ((110 - L) div 2))"
  define t where "t = (n * 4 ^ k) div d"
  define s where "s = isqrt t"
  define c :: rat where "c = (if s * s * d = n * 4 ^ k then of_int s / of_int (2 ^ k)
     else of_int (2 * s + 1) / of_int (2 ^ Suc k))"
  define S :: rat where "S = of_int s"
  define y where "y = a * 4 ^ k"
  define \<delta> :: rat where "\<delta> = 3 / 2 ^ 54"
  have sr: "sqrt_round a = fl c"
    using pos unfolding sqrt_round_def q prod.case Let_def L_def [symmetric] k_def [symmetric]
      t_def [symmetric] s_def [symmetric] c_def
    by simp
  have Lb: "pow2 L \<le> a" "a < pow2 (L + 1)"
    using floor_log2_bounds [OF pos] by (simp_all add: L_def)
  have "pow2 (- 1022) < pow2 (L + 1)"
    using lo Lb(2) by simp
  then have L_lo: "- 1022 < L + 1"
    by (rule pow2_less_cancel)
  have k_int: "int k = max 0 ((110 - L) div 2)"
    by (simp add: k_def)
  have k_hi: "int k \<le> 566"
    using L_lo unfolding k_int by simp
  have k_lo: "109 \<le> L + 2 * int k"
    unfolding k_int max_def by presburger
  have p4: "(4::rat) ^ k = pow2 (2 * int k)"
  proof -
    have "pow2 (2 * int k) = of_int (2 ^ nat (2 * int k))"
      by (intro pow2_nat) simp
    also have "nat (2 * int k) = 2 * k"
      by simp
    also have "rat_of_int (2 ^ (2 * k)) = 4 ^ k"
      by (simp add: power_mult)
    finally show ?thesis
      by simp
  qed
  have "pow2 109 \<le> pow2 (L + 2 * int k)"
    using k_lo by (rule pow2_mono)
  also have "\<dots> = pow2 L * 4 ^ k"
    by (simp add: pow2_add p4)
  also have "\<dots> \<le> y"
    unfolding y_def using Lb(1) by (intro mult_right_mono) simp_all
  finally have y_lo: "pow2 109 \<le> y" .
  have "y = of_int (n * 4 ^ k) / of_int d"
    by (simp add: y_def a)
  then have "\<lfloor>y\<rfloor> = t"
    unfolding t_def by (simp only: floor_divide_of_int_eq)
  then have t1: "of_int t \<le> y" "y < of_int (t + 1)"
    by (auto simp: floor_eq_iff)
  have "pow2 109 \<le> of_int (t + 1)"
    using y_lo t1(2) by simp
  then have t_lo: "2 ^ 109 \<le> t + 1"
    by (simp only: pow2_int_le) simp
  then have "0 \<le> t"
    by simp
  from isqrt_correct [OF this]
  have s: "0 \<le> s" "s * s \<le> t" "t < (s + 1) * (s + 1)"
    by (simp_all add: s_def)
  have s_lo: "2 ^ 54 \<le> s"
  proof (rule ccontr)
    assume "\<not> 2 ^ 54 \<le> s"
    then have "s + 1 \<le> 2 ^ 54"
      by simp
    then have "(s + 1) * (s + 1) \<le> 2 ^ 54 * 2 ^ 54"
      using s(1) by (intro mult_mono) simp_all
    with s(3) t_lo show False
      by simp
  qed
  have S: "2 ^ 54 \<le> S"
    using s_lo unfolding S_def by (metis of_int_le_iff of_int_numeral of_int_power)
  then have S1: "1 \<le> S"
    by simp
  have SS: "S * S \<le> y"
  proof -
    have "S * S = of_int (s * s)"
      by (simp add: S_def)
    also have "\<dots> \<le> of_int t"
      using s(2) by (simp only: of_int_le_iff)
    finally show ?thesis
      using t1(1) by simp
  qed
  have c_cases: "c = S / 2 ^ k \<or> c = (S + 1 / 2) / 2 ^ k"
    by (simp add: c_def S_def field_simps)
  have c_lo: "S / 2 ^ k \<le> c"
    using c_cases by (auto simp: field_simps)
  have c_hi: "c \<le> (S + 1) / 2 ^ k"
    using c_cases by (auto simp: field_simps)
  have c_pos: "0 \<le> c"
    using c_cases S1 by auto
  have pk: "(2::rat) ^ k * 2 ^ k = 4 ^ k"
    by (simp flip: power_mult_distrib)
  have grow: "(S + 1) * (S + 1) \<le> S * S * (1 + \<delta>)"
  proof -
    define P where "P = S * S"
    define Q where "Q = P * \<delta>"
    have "S * 2 ^ 54 \<le> S * S"
      using S S1 by (intro mult_left_mono) simp_all
    then have a1: "3 * S \<le> Q"
      by (simp add: Q_def P_def \<delta>_def field_simps)
    have a2: "(S + 1) * (S + 1) = P + 2 * S + 1"
      by (simp add: P_def algebra_simps)
    have a3: "S * S * (1 + \<delta>) = P + Q"
      by (simp add: Q_def P_def algebra_simps)
    show ?thesis
      unfolding a2 a3 using a1 S1 by linarith
  qed
  have "c * c \<le> (S + 1) / 2 ^ k * ((S + 1) / 2 ^ k)"
    using c_hi c_pos by (intro mult_mono) simp_all
  also have "\<dots> = (S + 1) * (S + 1) / 4 ^ k"
    using pk by simp
  also note grow
  also have "S * S * (1 + \<delta>) \<le> y * (1 + \<delta>)"
    using SS by (intro mult_right_mono) (simp_all add: \<delta>_def)
  finally have "c * c \<le> y * (1 + \<delta>) / 4 ^ k"
    by (simp add: divide_right_mono)
  then have sq: "c * c \<le> a * (1 + \<delta>)"
    by (simp add: y_def)
  have low: "a \<le> c * c * (1 + \<delta>)"
  proof -
    have "t + 1 \<le> (s + 1) * (s + 1)"
      using s(3) by simp
    then have "rat_of_int (t + 1) \<le> of_int ((s + 1) * (s + 1))"
      by (simp only: of_int_le_iff)
    then have "of_int (t + 1) \<le> (S + 1) * (S + 1)"
      by (simp add: S_def)
    with t1(2) grow have 1: "y \<le> S * S * (1 + \<delta>)"
      by linarith
    have "S \<le> c * 2 ^ k"
      using c_lo by (simp add: field_simps)
    then have "S * S \<le> c * 2 ^ k * (c * 2 ^ k)"
      using S1 by (intro mult_mono) simp_all
    also have "\<dots> = c * c * 4 ^ k"
      using pk by simp
    finally have 2: "S * S * (1 + \<delta>) \<le> c * c * 4 ^ k * (1 + \<delta>)"
      by (intro mult_right_mono) (simp_all add: \<delta>_def)
    from order_trans [OF 1 2] have "a * 4 ^ k \<le> c * c * (1 + \<delta>) * 4 ^ k"
      by (simp add: y_def mult_ac)
    moreover have "(0::rat) < 4 ^ k"
      by simp
    ultimately show ?thesis
      by (simp only: mult_le_cancel_right_pos)
  qed
  have "pow2 (- 512) \<le> pow2 (54 - int k)"
    using k_hi by (intro pow2_mono) simp
  also have "\<dots> = pow2 54 / pow2 (int k)"
    by (simp add: pow2_diff)
  also have "\<dots> = 2 ^ 54 / 2 ^ k"
    by (simp add: pow2_def)
  also have "\<dots> \<le> S / 2 ^ k"
    using S by (intro divide_right_mono) simp_all
  finally have "pow2 (- 512) \<le> c"
    using c_lo by simp
  with sr sq low show ?thesis
    unfolding \<delta>_def by blast
qed

lemma sqrt_round_bound:
  assumes lo: "pow2 (- 1022) \<le> a" and hi: "a < pow2 1023"
  shows "\<exists>d. sqrt_round a = Fin d \<and> fl d = Fin d \<and> pow2 (- 513) \<le> d
    \<and> d * d \<le> a * (1 + 1 / 2 ^ 51) \<and> a * (1 - 1 / 2 ^ 51) \<le> d * d"
proof -
  from sqrt_round_enclosure [OF assms] obtain c
    where sr: "sqrt_round a = fl c" and c_lo: "pow2 (- 512) \<le> c"
      and sq: "c * c \<le> a * (1 + 3 / 2 ^ 54)" and low: "a \<le> c * c * (1 + 3 / 2 ^ 54)"
    by blast
  define \<epsilon> :: rat where "\<epsilon> = 1 / 2 ^ 53"
  have eps: "0 \<le> \<epsilon>" "\<epsilon> \<le> 1 / 2"
    by (simp_all add: \<epsilon>_def)
  have a_pos: "0 < a"
    using lo pow2_pos [of "- 1022"] by linarith
  have c_pos: "0 < c"
    using c_lo pow2_pos [of "- 512"] by linarith
  have c_hi: "c < pow2 512"
  proof (rule ccontr)
    assume "\<not> c < pow2 512"
    then have "pow2 512 \<le> c"
      by simp
    then have "pow2 512 * pow2 512 \<le> c * c"
      using c_pos by (intro mult_mono) simp_all
    then have "pow2 1024 \<le> c * c"
      by (simp flip: pow2_add)
    moreover have "a * (1 + 3 / 2 ^ 54) \<le> a * 2"
      using a_pos by (intro mult_left_mono) simp_all
    moreover have "a * 2 < pow2 1023 * pow2 1"
      using hi by (simp add: pow2_def)
    moreover have "pow2 1023 * pow2 1 = pow2 1024"
      by (simp flip: pow2_add)
    ultimately show False
      using sq by linarith
  qed
  also have "pow2 512 < pow2 1023"
    by (rule pow2_strict_mono) simp
  finally obtain d where d: "fl c = Fin d"
    using fl_finite [OF c_pos] by blast
  have idem: "fl d = Fin d"
    using c_pos d by (rule fl_idem_pos)
  have "pow2 (- 1022) \<le> pow2 (- 512)"
    by (rule pow2_mono) simp
  with c_lo have "pow2 (- 1022) \<le> c"
    by simp
  from fl_normal_error [OF this d] have err: "\<bar>d - c\<bar> \<le> c * \<epsilon>"
    by (simp add: \<epsilon>_def)
  have d_hi: "d \<le> c * (1 + \<epsilon>)"
    using err by (simp add: algebra_simps abs_le_iff)
  have "c * \<epsilon> \<le> c * (1 / 2)"
    using eps c_pos by (intro mult_left_mono) simp_all
  then have d_lo: "c / 2 \<le> d"
    using err by (simp add: abs_le_iff)
  have "pow2 (- 513) * pow2 1 = pow2 (- 512)"
    by (simp flip: pow2_add)
  then have "pow2 (- 513) = pow2 (- 512) / 2"
    by (simp add: pow2_def)
  with c_lo d_lo have d_ge: "pow2 (- 513) \<le> d"
    by simp
  have d_pos: "0 \<le> d"
    using d_lo c_pos by simp
  have "d * d \<le> c * (1 + \<epsilon>) * (c * (1 + \<epsilon>))"
    using d_hi d_pos by (intro mult_mono) simp_all
  also have "\<dots> = c * c * ((1 + \<epsilon>) * (1 + \<epsilon>))"
    by simp
  also have "\<dots> \<le> a * (1 + 3 / 2 ^ 54) * ((1 + \<epsilon>) * (1 + \<epsilon>))"
    using sq eps by (intro mult_right_mono) simp_all
  also have "\<dots> = a * ((1 + 3 / 2 ^ 54) * ((1 + \<epsilon>) * (1 + \<epsilon>)))"
    by simp
  also have "\<dots> \<le> a * (1 + 1 / 2 ^ 51)"
    using a_pos by (intro mult_left_mono) (simp_all add: \<epsilon>_def)
  finally have upper: "d * d \<le> a * (1 + 1 / 2 ^ 51)" .
  have d_lo': "c * (1 - \<epsilon>) \<le> d"
    using err by (simp add: algebra_simps abs_le_iff)
  have "a * (1 - 1 / 2 ^ 51) \<le> c * c * (1 + 3 / 2 ^ 54) * (1 - 1 / 2 ^ 51)"
    using low by (intro mult_right_mono) simp_all
  also have "\<dots> = c * c * ((1 + 3 / 2 ^ 54) * (1 - 1 / 2 ^ 51))"
    by simp
  also have "\<dots> \<le> c * c * ((1 - \<epsilon>) * (1 - \<epsilon>))"
    by (intro mult_left_mono) (simp_all add: \<epsilon>_def)
  also have "\<dots> = c * (1 - \<epsilon>) * (c * (1 - \<epsilon>))"
    by simp
  also have "\<dots> \<le> d * d"
  proof -
    have "0 \<le> c * (1 - \<epsilon>)"
      using c_pos eps by (intro mult_nonneg_nonneg) simp_all
    with d_lo' d_pos show ?thesis
      by (intro mult_mono) simp_all
  qed
  finally have lower: "a * (1 - 1 / 2 ^ 51) \<le> d * d" .
  show ?thesis
    using sr d idem d_ge upper lower by auto
qed

text \<open>The decimal of a binary64 number lies within \<open>2^(-51)\<close> (relatively) of it.\<close>

lemma shortest_decimal_bound:
  assumes idem: "fl d = Fin d" and lo: "pow2 (- 513) \<le> d"
  shows "0 < shortest_decimal d \<and> shortest_decimal d \<le> d * (1 + 1 / 2 ^ 51)
    \<and> d * (1 - 1 / 2 ^ 51) \<le> shortest_decimal d"
proof -
  define sd where "sd = shortest_decimal d"
  define h :: rat where "h = 1 / 2 ^ 53"
  have d_pos: "0 < d"
    using lo pow2_pos [of "- 513"] by linarith
  have rt: "fl sd = Fin d"
    unfolding sd_def using idem by (rule shortest_decimal_round_trip)
  have sd_pos: "0 < sd"
    unfolding sd_def using idem d_pos by (rule shortest_decimal_pos)
  have "pow2 (- 1075) \<le> pow2 (- 566)"
    by (rule pow2_mono) simp
  also have "pow2 (- 566) = pow2 (- 513) / pow2 53"
    by (simp add: pow2_diff)
  also have "\<dots> = pow2 (- 513) * h"
    by (simp add: h_def pow2_def)
  also have "\<dots> \<le> d * h"
    using lo by (intro mult_right_mono) (simp_all add: h_def)
  finally have tiny: "pow2 (- 1075) \<le> d * h" .
  have e: "\<bar>d - sd\<bar> \<le> sd * h + pow2 (- 1075)"
    using fl_rel_error [OF sd_pos rt] by (simp add: h_def)
  with tiny have "sd - d \<le> sd * h + d * h"
    by linarith
  then have 1: "sd * (1 - h) \<le> d * (1 + h)"
    by (simp add: algebra_simps)
  define g :: rat where "g = 1 + 1 / 2 ^ 51"
  have "1 + h \<le> g * (1 - h)"
    by (simp add: h_def g_def)
  then have "d * (1 + h) \<le> d * (g * (1 - h))"
    using d_pos by (intro mult_left_mono) simp_all
  from order_trans [OF 1 this] have "sd * (1 - h) \<le> d * g * (1 - h)"
    by (simp only: mult.assoc)
  moreover have "0 < 1 - h"
    by (simp add: h_def)
  ultimately have upper: "sd \<le> d * g"
    by (simp only: mult_le_cancel_right_pos)
  define g' :: rat where "g' = 1 - 1 / 2 ^ 51"
  from e tiny have "d - sd \<le> sd * h + d * h"
    by linarith
  then have 2: "d * (1 - h) \<le> sd * (1 + h)"
    by (simp add: algebra_simps)
  have "g' * (1 + h) \<le> 1 - h"
    by (simp add: h_def g'_def)
  then have "d * (g' * (1 + h)) \<le> d * (1 - h)"
    using d_pos by (intro mult_left_mono) simp_all
  from order_trans [OF this 2] have "d * g' * (1 + h) \<le> sd * (1 + h)"
    by (simp only: mult.assoc)
  moreover have "0 < 1 + h"
    by (simp add: h_def)
  ultimately have lower: "d * g' \<le> sd"
    by (simp only: mult_le_cancel_right_pos)
  from sd_pos upper lower show ?thesis
    by (simp add: sd_def g_def g'_def)
qed

lemma big_round_below_one:
  assumes "0 \<le> x" and "x < 1 - 1 / (2 * 10 ^ dp)"
  shows "big_round dp x \<le> 1 - 1 / 10 ^ dp"
proof (cases "x = 0")
  case True
  then show ?thesis
    by (simp add: big_round_def)
next
  case False
  with assms(1) have sx: "sgn x = 1" "\<bar>x\<bar> = x"
    by simp_all
  define N :: rat where "N = 10 ^ dp"
  have N: "0 < N"
    by (simp add: N_def)
  have "x * N < (1 - 1 / (2 * N)) * N"
    using assms(2) N unfolding N_def by (intro mult_strict_right_mono) simp_all
  also have "\<dots> = N - 1 / 2"
    using N by (simp add: field_simps)
  finally have "x * N + 1 / 2 < of_int (10 ^ dp)"
    by (simp add: N_def)
  then have "\<lfloor>x * N + 1 / 2\<rfloor> < 10 ^ dp"
    by (simp only: floor_less_iff)
  then have "\<lfloor>x * N + 1 / 2\<rfloor> \<le> 10 ^ dp - 1"
    by simp
  then have "rat_of_int \<lfloor>x * N + 1 / 2\<rfloor> \<le> of_int (10 ^ dp - 1)"
    by (simp only: of_int_le_iff)
  then have "of_int \<lfloor>x * N + 1 / 2\<rfloor> / N \<le> (N - 1) / N"
    using N by (intro divide_right_mono) (simp_all add: N_def)
  also have "(N - 1) / N = 1 - 1 / N"
    using N by (simp add: field_simps)
  finally show ?thesis
    by (simp add: big_round_def sx N_def)
qed

lemma big_round_pos_ge:
  assumes "0 < x" and "big_round dp x \<noteq> 0"
  shows "1 / 10 ^ dp \<le> big_round dp x"
proof -
  have sx: "sgn x = 1" "\<bar>x\<bar> = x"
    using assms(1) by simp_all
  define k where "k = \<lfloor>x * 10 ^ dp + 1 / 2\<rfloor>"
  have r: "big_round dp x = of_int k / 10 ^ dp"
    by (simp add: big_round_def sx k_def)
  have "0 \<le> x * 10 ^ dp + 1 / 2"
    using assms(1) by simp
  then have "0 \<le> k"
    unfolding k_def by (simp only: zero_le_floor)
  moreover have "k \<noteq> 0"
    using assms(2) by (auto simp: r)
  ultimately have "1 \<le> k"
    by simp
  then have "(1::rat) \<le> of_int k"
    by simp
  then show ?thesis
    unfolding r by (intro divide_right_mono) simp_all
qed

lemma square_less_cancel:
  fixes x y :: rat
  assumes "0 \<le> x" and "x * x < y * y" and "0 \<le> y"
  shows "x < y"
proof (rule ccontr)
  assume "\<not> x < y"
  then have "y * y \<le> x * x"
    using assms(3) by (intro mult_mono) simp_all
  with assms(2) show False
    by simp
qed

subsection \<open>The formula over the reals\<close>

text \<open>Facts of real analysis behind the formula \<open>2 * sqrt r / (1 + r)\<close>.\<close>

lemma sqrt_from_square:
  fixes S R m :: real
  assumes S: "0 \<le> S" and R: "0 \<le> R" and m: "0 \<le> m" "m \<le> 1"
    and lo: "R * (1 - m) \<le> S * S" and hi: "S * S \<le> R * (1 + m)"
  shows "\<bar>S - sqrt R\<bar> \<le> m * sqrt R"
proof -
  have u: "S \<le> sqrt R * (1 + m)"
  proof (rule power2_le_imp_le)
    have "S\<^sup>2 = S * S"
      by (simp add: power2_eq_square)
    also note hi
    also have "R * (1 + m) \<le> R * ((1 + m) * (1 + m))"
      using R m by (intro mult_left_mono) (simp_all add: algebra_simps)
    also have "\<dots> = (sqrt R * (1 + m))\<^sup>2"
      using R by (simp add: power_mult_distrib power2_eq_square)
    finally show "S\<^sup>2 \<le> (sqrt R * (1 + m))\<^sup>2" .
    show "0 \<le> sqrt R * (1 + m)"
      using R m by simp
  qed
  have l: "sqrt R * (1 - m) \<le> S"
  proof (rule power2_le_imp_le)
    have "(sqrt R * (1 - m))\<^sup>2 = R * ((1 - m) * (1 - m))"
      using R by (simp add: power_mult_distrib power2_eq_square)
    also have "\<dots> \<le> R * (1 - m)"
    proof -
      have "(1 - m) * (1 - m) \<le> (1 - m) * 1"
        using m by (intro mult_left_mono) simp_all
      then show ?thesis
        using R by (intro mult_left_mono) simp_all
    qed
    also note lo
    also have "S * S = S\<^sup>2"
      by (simp add: power2_eq_square)
    finally show "(sqrt R * (1 - m))\<^sup>2 \<le> S\<^sup>2" .
    show "0 \<le> S"
      by (rule S)
  qed
  from u l show ?thesis
    by (simp add: abs_le_iff algebra_simps)
qed

lemma two_sqrt_le:
  fixes R :: real
  assumes "0 \<le> R"
  shows "2 * sqrt R \<le> 1 + R"
proof -
  have "0 \<le> (sqrt R - 1)\<^sup>2"
    by simp
  also have "(sqrt R - 1)\<^sup>2 = R - 2 * sqrt R + 1"
    using assms by (simp add: power2_diff)
  finally show ?thesis
    by simp
qed

lemma root_formula_lipschitz:
  fixes R X :: real
  assumes R: "0 \<le> R" and X: "0 \<le> X"
  shows "\<bar>2 * sqrt R / (1 + R) - 2 * sqrt X / (1 + X)\<bar> \<le> 2 * \<bar>sqrt R - sqrt X\<bar> + \<bar>R - X\<bar>"
proof -
  define A where "A = 2 * (sqrt R - sqrt X) / (1 + R)"
  define B where "B = 2 * sqrt X / (1 + X) * ((X - R) / (1 + R))"
  have pos: "0 < 1 + R" "0 < 1 + X"
    using R X by simp_all
  have e1: "2 * sqrt R / (1 + R) - 2 * sqrt X / (1 + R) = A"
    by (simp add: A_def diff_divide_distrib algebra_simps)
  have e2: "1 / (1 + R) - 1 / (1 + X) = (X - R) / ((1 + R) * (1 + X))"
    using pos by (simp add: field_simps)
  have "2 * sqrt X / (1 + R) - 2 * sqrt X / (1 + X) = 2 * sqrt X * (1 / (1 + R) - 1 / (1 + X))"
    by (simp add: algebra_simps)
  also have "\<dots> = B"
    unfolding e2 by (simp add: B_def)
  finally have e3: "2 * sqrt X / (1 + R) - 2 * sqrt X / (1 + X) = B" .
  have eq: "2 * sqrt R / (1 + R) - 2 * sqrt X / (1 + X) = A + B"
    using e1 e3 by linarith
  have "\<bar>A\<bar> = \<bar>2 * (sqrt R - sqrt X)\<bar> / (1 + R)"
    using pos by (simp add: A_def)
  also have "\<dots> \<le> \<bar>2 * (sqrt R - sqrt X)\<bar> / 1"
    using R by (intro divide_left_mono) simp_all
  finally have a: "\<bar>A\<bar> \<le> 2 * \<bar>sqrt R - sqrt X\<bar>"
    by (simp only: abs_mult div_by_1)
  have "\<bar>(X - R) / (1 + R)\<bar> = \<bar>X - R\<bar> / (1 + R)"
    using pos by simp
  also have "\<dots> \<le> \<bar>X - R\<bar> / 1"
    using R by (intro divide_left_mono) simp_all
  finally have b1: "\<bar>(X - R) / (1 + R)\<bar> \<le> \<bar>R - X\<bar>"
    by (simp add: abs_minus_commute)
  have b2: "\<bar>2 * sqrt X / (1 + X)\<bar> \<le> 1"
    using two_sqrt_le [OF X] pos X by simp
  have "\<bar>B\<bar> = \<bar>2 * sqrt X / (1 + X)\<bar> * \<bar>(X - R) / (1 + R)\<bar>"
    by (simp add: B_def abs_mult)
  also have "\<dots> \<le> 1 * \<bar>R - X\<bar>"
    using b1 b2 by (intro mult_mono) simp_all
  finally have b: "\<bar>B\<bar> \<le> \<bar>R - X\<bar>"
    by simp
  show ?thesis
    unfolding eq using a b by linarith
qed

lemma sqrt_diff_le:
  fixes R X :: real
  assumes R: "0 \<le> R" and X: "0 \<le> X"
  shows "\<bar>sqrt R - sqrt X\<bar> \<le> sqrt \<bar>R - X\<bar>"
proof -
  have *: "sqrt b - sqrt a \<le> sqrt (b - a) \<and> 0 \<le> sqrt b - sqrt a"
    if "0 \<le> a" "a \<le> b" for a b :: real
  proof -
    have "sqrt b = sqrt (a + (b - a))"
      by simp
    also have "\<dots> \<le> sqrt a + sqrt (b - a)"
      using that by (intro sqrt_add_le_add_sqrt) simp_all
    finally show ?thesis
      using that by simp
  qed
  show ?thesis
  proof (cases "X \<le> R")
    case True
    with * [OF X True] show ?thesis
      by simp
  next
    case False
    then have "R \<le> X"
      by simp
    with * [OF R this] False show ?thesis
      by (simp add: abs_minus_commute)
  qed
qed

lemma sqrt_diff_away:
  fixes R X :: real
  assumes R: "0 \<le> R" and X: "1 / 100 \<le> X"
  shows "\<bar>sqrt R - sqrt X\<bar> \<le> 10 * \<bar>R - X\<bar>"
proof -
  have "(1 / 10)\<^sup>2 \<le> X"
    using X by (simp add: power2_eq_square)
  then have x: "1 / 10 \<le> sqrt X"
    by (rule real_le_rsqrt)
  have X0: "0 \<le> X"
    using X by simp
  have "(sqrt R - sqrt X) * (sqrt R + sqrt X) = R - X"
    using R X0 by (simp add: algebra_simps)
  then have "\<bar>R - X\<bar> = \<bar>(sqrt R - sqrt X) * (sqrt R + sqrt X)\<bar>"
    by simp
  also have "\<dots> = \<bar>sqrt R - sqrt X\<bar> * \<bar>sqrt R + sqrt X\<bar>"
    by (rule abs_mult)
  also have "\<bar>sqrt R + sqrt X\<bar> = sqrt R + sqrt X"
    using R X0 by simp
  finally have "\<bar>R - X\<bar> = \<bar>sqrt R - sqrt X\<bar> * (sqrt R + sqrt X)" .
  moreover have "1 / 10 \<le> sqrt R + sqrt X"
    using x real_sqrt_ge_zero [OF R] by linarith
  then have "\<bar>sqrt R - sqrt X\<bar> * (1 / 10) \<le> \<bar>sqrt R - sqrt X\<bar> * (sqrt R + sqrt X)"
    by (intro mult_left_mono) simp_all
  ultimately show ?thesis
    by simp
qed

section \<open>Impermanent loss and liquidity distribution\<close>

lemma unit_values:
  "fl 1 = Fin 1" "sqrt_round 1 = Fin 1" "shortest_decimal 1 = 1"
  by code_simp+

lemma big_round_one [simp]: "big_round dp 1 = 1"
  by (rule big_round_exact [of 1 dp "10 ^ dp"]) simp

lemma il_values:
  "calculateImpermanentLoss 20 1 (10000000001 / 10000000000) = Fin 0"
  "calculateImpermanentLoss 20 1 4 = Fin (- (3602879701896397 / 18014398509481984))"
  "calculateImpermanentLoss 20 1 (3 / 2) = Fin (- (5823436174849727 / 288230376151711744))"
  "fl (- (1 / 5)) = Fin (- (3602879701896397 / 18014398509481984))"
  "calculateImpermanentLoss 18 1 (10000000001 / 10000000000) = Fin 0"
  "calculateImpermanentLoss 18 1 4 = Fin (- (3602879701896397 / 18014398509481984))"
  by code_simp+

text \<open>
  Claim C5, as stated: the impermanent loss from ratio 1 to any positive ratio other than
  1 is negative. At the ratio \<open>1.0000000001\<close> the code returns 0: the number nearest to the
  square root prints as \<open>1.00000000005\<close>, twice that is exactly \<open>1 + ratio\<close>, the quotient
  is 1. This is so with 20 decimal places, the default of the library, and with the 18 set
  by \<^verbatim>\<open>src/utils/math.ts\<close>.
\<close>

theorem impermanent_loss_rounds_to_zero_counterexample:
  "calculateImpermanentLoss 20 1 (10000000001 / 10000000000) = Fin 0
   \<and> \<not> js_lt (calculateImpermanentLoss 20 1 (10000000001 / 10000000000)) (Fin 0)
   \<and> calculateImpermanentLoss 18 1 (10000000001 / 10000000000) = Fin 0
   \<and> \<not> js_lt (calculateImpermanentLoss 18 1 (10000000001 / 10000000000)) (Fin 0)"
  by (simp add: il_values)

text \<open>
  The root is rounded to binary64 and printed with 17 digits, which is coarser than the
  decimals around it. At the ratio \<open>1 + 2^(-29)\<close> the printed root is above the exact one
  and the result is positive.
\<close>

lemma impermanent_loss_positive_example:
  "calculateImpermanentLoss 20 1 (1 + 1 / 2 ^ 29)
     = Fin (4118140445925435 / 162259276829213363391578010288128)"
  "calculateImpermanentLoss 18 1 (1 + 1 / 2 ^ 29)
     = Fin (2028240960365167 / 81129638414606681695789005144064)"
  by code_simp+

lemma decimal_range:
  "pow2 (- 1021) \<le> 1 / 10 ^ 300" "(10::rat) ^ 300 + 1 \<le> pow2 1000"
  by (simp_all add: pow2_def)

text \<open>
  The exact inequality behind the loss: \<open>4 r < (1 + r)\<^sup>2\<close> away from \<open>r = 1\<close>, with room for
  a relative error \<open>\<mu>\<close> of the root and an absolute error \<open>\<theta>\<close> of the quotient.
\<close>

lemma loss_inequality:
  fixes r \<theta> \<mu> :: rat
  assumes r: "0 \<le> r" and \<theta>: "0 \<le> \<theta>" "\<theta> \<le> 1 / 20000000000000000"
    and \<mu>: "0 \<le> \<mu>" "\<mu> \<le> 1 / 562949953421312"
    and away: "9 / 10000000 \<le> \<bar>r - 1\<bar>"
  shows "4 * (r * (1 + \<mu>)) < (1 - 2 * \<theta>) * ((1 + r) * (1 + r))"
proof -
  define P where "P = r * r"
  define A where "A = r * \<mu>"
  define W where "W = (1 + r) * (1 + r)"
  define B where "B = \<theta> * W"
  have W: "W = 1 + 2 * r + P"
    by (simp add: W_def P_def algebra_simps)
  have W0: "0 \<le> W"
    by (simp add: W_def)
  have "A \<le> r * (1 / 562949953421312)"
    unfolding A_def using \<mu> r by (intro mult_left_mono) simp_all
  then have A: "562949953421312 * A \<le> r"
    by simp
  have "B \<le> 1 / 20000000000000000 * W"
    unfolding B_def using \<theta> W0 by (intro mult_right_mono) simp_all
  then have B: "20000000000000000 * B \<le> W"
    by simp
  have "9 / 10000000 * (9 / 10000000) \<le> \<bar>r - 1\<bar> * \<bar>r - 1\<bar>"
    using away by (intro mult_mono) simp_all
  also have "\<bar>r - 1\<bar> * \<bar>r - 1\<bar> = (r - 1) * (r - 1)"
    by simp
  also have "\<dots> = 1 - 2 * r + P"
    by (simp add: P_def algebra_simps)
  finally have D: "81 / 100000000000000 \<le> 1 - 2 * r + P"
    by simp
  have l: "4 * (r * (1 + \<mu>)) = 4 * r + 4 * A"
    by (simp add: A_def algebra_simps)
  have u: "(1 - 2 * \<theta>) * ((1 + r) * (1 + r)) = W - 2 * B"
    by (simp add: B_def W_def algebra_simps)
  show ?thesis
  proof (cases "r \<le> 4")
    case True
    then have "r * r \<le> 4 * r"
      using r by (intro mult_right_mono) simp_all
    then have "P \<le> 4 * r"
      by (simp add: P_def)
    with True r have "W \<le> 25"
      unfolding W by linarith
    with B have b: "2 * B \<le> 1 / 400000000000000"
      by linarith
    from A True have a: "4 * A \<le> 1 / 30000000000000"
      by linarith
    from a b D show ?thesis
      unfolding l u W by linarith
  next
    case False
    then have "4 * r \<le> r * r"
      by (intro mult_right_mono) simp_all
    then have "4 * r \<le> P"
      by (simp add: P_def)
    with False have p: "16 \<le> P" "2 * r \<le> P / 2"
      by linarith+
    from B p have b: "2 * B \<le> P / 4"
      unfolding W by linarith
    from A p have a: "4 * A \<le> P / 8"
      by linarith
    from a b p show ?thesis
      unfolding l u W by linarith
  qed
qed

lemma loss_eval:
  assumes "i \<noteq> 0" and "c \<noteq> 0" and "fl (big_round dp (c / i)) = Fin a" and "0 < a"
    and "sqrt_round a = Fin d" and "0 < d" and "1 + big_round dp (c / i) \<noteq> 0"
  shows "calculateImpermanentLoss dp i c
    = fl (big_round dp (2 * shortest_decimal d / (1 + big_round dp (c / i))) - 1)"
  using assms by (simp add: calculateImpermanentLoss_def big_div_def num_of_big_def Let_def)

lemma loss_eval_zero:
  assumes "i \<noteq> 0" and "c \<noteq> 0" and "big_round dp (c / i) = 0"
  shows "calculateImpermanentLoss dp i c = fl (0 - 1)"
proof -
  have "big_round dp 0 = 0"
    by (simp add: big_round_def)
  with assms show ?thesis
    by (simp add: calculateImpermanentLoss_def big_div_def num_of_big_def Let_def sqrt_round_def)
qed

lemma loss_result_negative:
  assumes dp: "dp \<le> 300" and q: "0 \<le> q" "q \<le> 1 - 1 / 10 ^ dp"
  shows "\<exists>v. fl (q - 1) = Fin v \<and> v < 0"
proof -
  define y where "y = 1 - q"
  have "(10::rat) ^ dp \<le> 10 ^ 300"
    using dp by (intro power_increasing) simp_all
  then have "1 / 10 ^ 300 \<le> 1 / (10::rat) ^ dp"
    by (intro divide_left_mono) simp_all
  with decimal_range(1) q(2) have y_lo: "pow2 (- 1021) \<le> y"
    unfolding y_def by linarith
  have "pow2 (- 1022) \<le> pow2 (- 1021)"
    by (rule pow2_mono) simp
  with y_lo have lo: "pow2 (- 1022) \<le> y"
    by simp
  have y_pos: "0 < y"
    using y_lo pow2_pos [of "- 1021"] by linarith
  have "y \<le> pow2 0"
    using q(1) by (simp add: y_def pow2_def)
  also have "pow2 0 < pow2 1023"
    by (rule pow2_strict_mono) simp
  finally obtain w where w: "fl y = Fin w"
    using fl_finite [OF y_pos] by blast
  define h :: rat where "h = 1 / 2 ^ 53"
  have "\<bar>w - y\<bar> \<le> y * h"
    using fl_normal_error [OF lo w] by (simp add: h_def)
  moreover have "y * h < y * 1"
    using y_pos by (intro mult_strict_left_mono) (simp_all add: h_def)
  ultimately have "0 < w"
    by (simp add: abs_le_iff)
  moreover have "fl (q - 1) = Fin (- w)"
    using fl_neg [of y] w by (simp add: y_def)
  ultimately show ?thesis
    by simp
qed

text \<open>
  The root that enters the second quotient: the decimal of the binary64 root of the
  rounded ratio. Its square is the ratio up to a relative error of \<open>2^(-49)\<close>.
\<close>

lemma loss_root:
  assumes dp: "dp \<le> 300" and i: "i \<noteq> 0" and pos: "0 < c / i" and hi: "c / i \<le> 10 ^ 300"
  shows "\<exists>sd. 0 \<le> sd
     \<and> big_round dp (c / i) * (1 - 1 / 2 ^ 49) \<le> sd * sd
     \<and> sd * sd \<le> big_round dp (c / i) * (1 + 1 / 2 ^ 49)
     \<and> calculateImpermanentLoss dp i c
         = fl (big_round dp (2 * sd / (1 + big_round dp (c / i))) - 1)"
proof -
  define x where "x = c / i"
  define r where "r = big_round dp x"
  define \<theta> :: rat where "\<theta> = 1 / (2 * 10 ^ dp)"
  have c: "c \<noteq> 0"
    using pos by auto
  have x_pos: "0 < x"
    using pos by (simp add: x_def)
  have r0: "0 \<le> r"
    unfolding r_def using x_pos by (intro big_round_nonneg) simp
  have re: "\<bar>r - x\<bar> \<le> \<theta>"
    unfolding r_def \<theta>_def by (rule big_round_error)
  have "(1::rat) \<le> 10 ^ dp"
    by simp
  then have "1 / (2 * 10 ^ dp) \<le> 1 / (2 * (1::rat))"
    by (intro divide_left_mono) simp_all
  then have "\<theta> \<le> 1"
    unfolding \<theta>_def by linarith
  moreover have "0 \<le> \<theta>"
    by (simp add: \<theta>_def)
  ultimately have \<theta>: "0 \<le> \<theta>" "\<theta> \<le> 1"
    by simp_all
  have one: "0 < 1 + r"
    using r0 by simp
  show ?thesis
  proof (cases "r = 0")
    case True
    have "calculateImpermanentLoss dp i c = fl (0 - 1)"
      using i c True unfolding r_def x_def by (rule loss_eval_zero)
    moreover have "big_round dp 0 = 0"
      by (simp add: big_round_def)
    ultimately have "calculateImpermanentLoss dp i c
        = fl (big_round dp (2 * 0 / (1 + big_round dp (c / i))) - 1)"
      by simp
    moreover have "big_round dp (c / i) * (1 - 1 / 2 ^ 49) \<le> 0 * 0"
      "0 * 0 \<le> big_round dp (c / i) * (1 + 1 / 2 ^ 49)"
      using True by (simp_all add: r_def x_def)
    ultimately show ?thesis
      by (intro exI [of _ 0]) simp
  next
    case False
    have "1 / 10 ^ dp \<le> r"
      unfolding r_def using x_pos False by (intro big_round_pos_ge) (simp_all add: r_def)
    moreover have "(10::rat) ^ dp \<le> 10 ^ 300"
      using dp by (intro power_increasing) simp_all
    then have "1 / 10 ^ 300 \<le> 1 / (10::rat) ^ dp"
      by (intro divide_left_mono) simp_all
    ultimately have r_lo: "pow2 (- 1021) \<le> r"
      using decimal_range(1) by linarith
    have r_pos: "0 < r"
      using r0 False by simp
    have "r \<le> x + \<theta>"
      using re by (simp add: abs_le_iff)
    also have "\<dots> \<le> 10 ^ 300 + 1"
      using hi \<theta> by (simp add: x_def)
    also have "\<dots> \<le> pow2 1000"
      by (rule decimal_range(2))
    finally have r_hi: "r \<le> pow2 1000" .
    also have "pow2 1000 < pow2 1023"
      by (rule pow2_strict_mono) simp
    finally obtain a where a: "fl r = Fin a"
      using fl_finite [OF r_pos] by blast
    define h :: rat where "h = 1 / 2 ^ 53"
    define g :: rat where "g = 1 + 1 / 2 ^ 51"
    define g' :: rat where "g' = 1 - 1 / 2 ^ 51"
    have hg: "0 \<le> h" "h \<le> 1 / 2" "1 \<le> g" "0 \<le> g'"
      by (simp_all add: h_def g_def g'_def)
    have "pow2 (- 1022) \<le> pow2 (- 1021)"
      by (rule pow2_mono) simp
    with r_lo have "pow2 (- 1022) \<le> r"
      by simp
    from fl_normal_error [OF this a] have ea: "\<bar>a - r\<bar> \<le> r * h"
      by (simp add: h_def)
    have "r * h \<le> r * (1 / 2)"
      using hg r0 by (intro mult_left_mono) simp_all
    with ea have "r / 2 \<le> a"
      by (simp add: abs_le_iff)
    moreover have "pow2 (- 1022) * pow2 1 = pow2 (- 1021)"
      by (simp flip: pow2_add)
    then have "pow2 (- 1022) = pow2 (- 1021) / 2"
      by (simp add: pow2_def)
    ultimately have a_lo: "pow2 (- 1022) \<le> a"
      using r_lo by simp
    have a_pos: "0 < a"
      using a_lo pow2_pos [of "- 1022"] by linarith
    have a_le: "a \<le> r * (1 + h)"
      using ea by (simp add: abs_le_iff algebra_simps)
    have a_ge: "r * (1 - h) \<le> a"
      using ea by (simp add: abs_le_iff algebra_simps)
    note a_le
    also have "r * (1 + h) \<le> r * 2"
      using hg r0 by (intro mult_left_mono) simp_all
    also have "\<dots> \<le> pow2 1000 * pow2 1"
      using r_hi by (simp add: pow2_def)
    also have "\<dots> = pow2 1001"
      by (simp flip: pow2_add)
    also have "\<dots> < pow2 1023"
      by (rule pow2_strict_mono) simp
    finally have a_hi: "a < pow2 1023" .
    from sqrt_round_bound [OF a_lo a_hi] obtain d
      where d: "sqrt_round a = Fin d" and idem: "fl d = Fin d" and d_lo: "pow2 (- 513) \<le> d"
        and dd: "d * d \<le> a * g" and dd': "a * g' \<le> d * d"
      unfolding g_def g'_def by blast
    have d_pos: "0 < d"
      using d_lo pow2_pos [of "- 513"] by linarith
    define sd where "sd = shortest_decimal d"
    have sd: "0 < sd" "sd \<le> d * g" "d * g' \<le> sd"
      using shortest_decimal_bound [OF idem d_lo] by (simp_all add: sd_def g_def g'_def)
    have eval: "calculateImpermanentLoss dp i c = fl (big_round dp (2 * sd / (1 + r)) - 1)"
      unfolding sd_def r_def x_def
      using i c a a_pos d d_pos one by (intro loss_eval) (simp_all add: r_def x_def)
    have "sd * sd \<le> d * g * (d * g)"
      using sd by (intro mult_mono) simp_all
    also have "\<dots> = d * d * (g * g)"
      by simp
    also have "\<dots> \<le> a * g * (g * g)"
      using dd hg by (intro mult_right_mono) simp_all
    also have "\<dots> = a * (g * (g * g))"
      by simp
    also have "\<dots> \<le> r * (1 + h) * (g * (g * g))"
      using a_le hg by (intro mult_right_mono) simp_all
    also have "\<dots> = r * ((1 + h) * (g * (g * g)))"
      by simp
    also have "\<dots> \<le> r * (1 + 1 / 2 ^ 49)"
      using r0 by (intro mult_left_mono) (simp_all add: h_def g_def)
    finally have upper: "sd * sd \<le> r * (1 + 1 / 2 ^ 49)" .
    have "r * (1 - 1 / 2 ^ 49) \<le> r * ((1 - h) * (g' * (g' * g')))"
      using r0 by (intro mult_left_mono) (simp_all add: h_def g'_def)
    also have "\<dots> = r * (1 - h) * (g' * (g' * g'))"
      by simp
    also have "\<dots> \<le> a * (g' * (g' * g'))"
      using a_ge hg by (intro mult_right_mono) simp_all
    also have "\<dots> = a * g' * (g' * g')"
      by simp
    also have "\<dots> \<le> d * d * (g' * g')"
      using dd' hg by (intro mult_right_mono) simp_all
    also have "\<dots> = d * g' * (d * g')"
      by simp
    also have "\<dots> \<le> sd * sd"
    proof -
      have "0 \<le> d * g'"
        using d_pos hg by (intro mult_nonneg_nonneg) simp_all
      with sd show ?thesis
        by (intro mult_mono) simp_all
    qed
    finally have lower: "r * (1 - 1 / 2 ^ 49) \<le> sd * sd" .
    from sd(1) lower upper eval show ?thesis
      unfolding r_def x_def by (intro exI [of _ sd]) simp
  qed
qed

text \<open>
  Away from ratio 1 the loss is negative: the errors of the two roundings of the quotients,
  of the binary64 root and of its decimal are smaller than the distance of
  \<open>2 * sqrt(r) / (1 + r)\<close> from 1.
\<close>

lemma loss_negative:
  assumes dp: "16 \<le> dp" "dp \<le> 300" and i: "i \<noteq> 0"
    and pos: "0 < c / i" and hi: "c / i \<le> 10 ^ 300" and away: "1 / 1000000 \<le> \<bar>c / i - 1\<bar>"
  shows "\<exists>v. calculateImpermanentLoss dp i c = Fin v \<and> v < 0"
proof -
  define x where "x = c / i"
  define r where "r = big_round dp x"
  define \<theta> :: rat where "\<theta> = 1 / (2 * 10 ^ dp)"
  define \<mu> :: rat where "\<mu> = 1 / 2 ^ 49"
  from loss_root [OF dp(2) i pos hi] obtain sd
    where sd: "0 \<le> sd" and sq: "sd * sd \<le> r * (1 + \<mu>)"
      and eval: "calculateImpermanentLoss dp i c = fl (big_round dp (2 * sd / (1 + r)) - 1)"
    unfolding r_def x_def \<mu>_def by blast
  have x_pos: "0 < x"
    using pos by (simp add: x_def)
  have r0: "0 \<le> r"
    unfolding r_def using x_pos by (intro big_round_nonneg) simp
  have re: "\<bar>r - x\<bar> \<le> \<theta>"
    unfolding r_def \<theta>_def by (rule big_round_error)
  have "(10::rat) ^ 16 \<le> 10 ^ dp"
    using dp(1) by (intro power_increasing) simp_all
  then have "1 / (2 * 10 ^ dp) \<le> 1 / (2 * (10::rat) ^ 16)"
    by (intro divide_left_mono) simp_all
  then have \<theta>: "0 \<le> \<theta>" "\<theta> \<le> 1 / 20000000000000000"
    by (simp_all add: \<theta>_def)
  have one: "0 < 1 + r"
    using r0 by simp
  have "1 / 1000000 \<le> \<bar>x - 1\<bar>"
    using away by (simp add: x_def)
  with re \<theta> have "9 / 10000000 \<le> \<bar>r - 1\<bar>"
    by linarith
  moreover have "0 \<le> \<mu>" "\<mu> \<le> 1 / 562949953421312"
    by (simp_all add: \<mu>_def)
  ultimately have "4 * (r * (1 + \<mu>)) < (1 - 2 * \<theta>) * ((1 + r) * (1 + r))"
    using r0 \<theta> by (intro loss_inequality) simp_all
  moreover have "2 * sd * (2 * sd) \<le> 4 * (r * (1 + \<mu>))"
    using sq by simp
  moreover have "(1 - 2 * \<theta>) * ((1 + r) * (1 + r))
      \<le> (1 - \<theta>) * (1 - \<theta>) * ((1 + r) * (1 + r))"
  proof (intro mult_right_mono)
    have "(1 - \<theta>) * (1 - \<theta>) = 1 - 2 * \<theta> + \<theta> * \<theta>"
      by (simp add: algebra_simps)
    then show "1 - 2 * \<theta> \<le> (1 - \<theta>) * (1 - \<theta>)"
      by simp
    show "0 \<le> (1 + r) * (1 + r)"
      by simp
  qed
  moreover have "(1 - \<theta>) * (1 - \<theta>) * ((1 + r) * (1 + r))
      = (1 - \<theta>) * (1 + r) * ((1 - \<theta>) * (1 + r))"
    by simp
  ultimately have "2 * sd * (2 * sd) < (1 - \<theta>) * (1 + r) * ((1 - \<theta>) * (1 + r))"
    by linarith
  moreover have "0 \<le> (1 - \<theta>) * (1 + r)"
    using \<theta> r0 by (intro mult_nonneg_nonneg) simp_all
  moreover have "0 \<le> 2 * sd"
    using sd by simp
  ultimately have "2 * sd < (1 - \<theta>) * (1 + r)"
    using square_less_cancel [of "2 * sd" "(1 - \<theta>) * (1 + r)"] by blast
  then have lt: "2 * sd / (1 + r) < 1 - \<theta>"
    using one by (simp add: pos_divide_less_eq)
  have nn: "0 \<le> 2 * sd / (1 + r)"
    using sd one by simp
  define q where "q = big_round dp (2 * sd / (1 + r))"
  have "q \<le> 1 - 1 / 10 ^ dp"
    unfolding q_def using nn lt big_round_below_one [of "2 * sd / (1 + r)" dp]
    by (simp add: \<theta>_def)
  moreover have "0 \<le> q"
    unfolding q_def using nn by (rule big_round_nonneg)
  ultimately show ?thesis
    using loss_result_negative [OF dp(2), of q] by (simp add: eval q_def)
qed

lemma of_rat_abs_diff_le:
  assumes "\<bar>a - b\<bar> \<le> e"
  shows "\<bar>real_of_rat a - real_of_rat b\<bar> \<le> real_of_rat e"
proof -
  from assms have "a - b \<le> e" "b - a \<le> e"
    by (simp_all add: abs_le_iff)
  then have "real_of_rat (a - b) \<le> real_of_rat e" "real_of_rat (b - a) \<le> real_of_rat e"
    by (simp_all only: of_rat_less_eq)
  then show ?thesis
    by (simp add: of_rat_diff abs_le_iff)
qed

text \<open>
  The loss returned by the code against the formula over the reals: the difference is at
  most \<open>2^(-48)\<close> for the binary64 operations, one unit of the last decimal place for the
  two quotients, and twice what the rounding of the ratio moves its square root.
\<close>

lemma loss_accuracy:
  assumes dp: "dp \<le> 300" and i: "i \<noteq> 0" and pos: "0 < c / i" and hi: "c / i \<le> 10 ^ 300"
  shows "\<exists>v. calculateImpermanentLoss dp i c = Fin v
     \<and> \<bar>real_of_rat v - (2 * sqrt (real_of_rat (c / i)) / (1 + real_of_rat (c / i)) - 1)\<bar>
         \<le> 1 / 2 ^ 48 + 1 / 10 ^ dp
            + 2 * \<bar>sqrt (real_of_rat (big_round dp (c / i))) - sqrt (real_of_rat (c / i))\<bar>"
proof -
  define x where "x = c / i"
  define r where "r = big_round dp x"
  define \<theta> :: rat where "\<theta> = 1 / (2 * 10 ^ dp)"
  define \<mu> :: rat where "\<mu> = 1 / 2 ^ 49"
  from loss_root [OF dp i pos hi] obtain sd
    where sd: "0 \<le> sd" and lower: "r * (1 - \<mu>) \<le> sd * sd" and upper: "sd * sd \<le> r * (1 + \<mu>)"
      and eval: "calculateImpermanentLoss dp i c = fl (big_round dp (2 * sd / (1 + r)) - 1)"
    unfolding r_def x_def \<mu>_def by blast
  have x_pos: "0 < x"
    using pos by (simp add: x_def)
  have r0: "0 \<le> r"
    unfolding r_def using x_pos by (intro big_round_nonneg) simp
  have re: "\<bar>r - x\<bar> \<le> \<theta>"
    unfolding r_def \<theta>_def by (rule big_round_error)
  have "(1::rat) \<le> 10 ^ dp"
    by simp
  then have "1 / (2 * 10 ^ dp) \<le> 1 / (2 * (1::rat))"
    by (intro divide_left_mono) simp_all
  then have \<theta>: "\<theta> \<le> 1"
    unfolding \<theta>_def by linarith
  have one: "0 < 1 + r"
    using r0 by simp
  define G where "G = 2 * sd / (1 + r)"
  define q where "q = big_round dp G"
  have G0: "0 \<le> G"
    using sd one by (simp add: G_def)
  have qe: "\<bar>q - G\<bar> \<le> \<theta>"
    unfolding q_def \<theta>_def by (rule big_round_error)
  have q0: "0 \<le> q"
    unfolding q_def using G0 by (rule big_round_nonneg)
  have "r * (1 + \<mu>) \<le> r * 2"
    using r0 by (intro mult_left_mono) (simp_all add: \<mu>_def)
  also have "r * 2 \<le> (1 + r) * (1 + r)"
  proof -
    have "(1 + r) * (1 + r) = 1 + r * 2 + r * r"
      by (simp add: algebra_simps)
    moreover have "0 \<le> r * r"
      by simp
    ultimately show ?thesis
      by linarith
  qed
  finally have "sd * sd \<le> (1 + r) * (1 + r)"
    using upper by simp
  have sd_le: "sd \<le> 1 + r"
  proof (rule ccontr)
    assume "\<not> sd \<le> 1 + r"
    then have "(1 + r) * (1 + r) < sd * sd"
      using one by (intro mult_strict_mono) simp_all
    with \<open>sd * sd \<le> (1 + r) * (1 + r)\<close> show False
      by simp
  qed
  have "G \<le> 2"
    using sd_le one by (simp add: G_def pos_divide_le_eq)
  with qe \<theta> q0 have "\<bar>q - 1\<bar> \<le> 4"
    by linarith
  from fl_error [OF this] obtain v where v: "fl (q - 1) = Fin v"
    and ve: "\<bar>v - (q - 1)\<bar> \<le> 1 / 2 ^ 51"
    by blast
  have res: "calculateImpermanentLoss dp i c = Fin v"
    using eval v by (simp add: q_def G_def)
  define X where "X = real_of_rat x"
  define R where "R = real_of_rat r"
  define S where "S = real_of_rat sd"
  define Q where "Q = real_of_rat q"
  define V where "V = real_of_rat v"
  define \<Theta> :: real where "\<Theta> = 1 / (2 * 10 ^ dp)"
  define M :: real where "M = 1 / 2 ^ 49"
  have X0: "0 \<le> X" and R0: "0 \<le> R" and S0: "0 \<le> S"
    using x_pos r0 sd by (simp_all add: X_def R_def S_def)
  have RX: "\<bar>R - X\<bar> \<le> \<Theta>"
    using of_rat_abs_diff_le [OF re]
    by (simp add: R_def X_def \<Theta>_def \<theta>_def of_rat_divide of_rat_mult of_rat_power)
  have "real_of_rat (r * (1 - \<mu>)) \<le> real_of_rat (sd * sd)"
    using lower by (simp only: of_rat_less_eq)
  then have lo: "R * (1 - M) \<le> S * S"
    by (simp add: R_def S_def M_def \<mu>_def of_rat_mult of_rat_diff of_rat_divide of_rat_power)
  have "real_of_rat (sd * sd) \<le> real_of_rat (r * (1 + \<mu>))"
    using upper by (simp only: of_rat_less_eq)
  then have up: "S * S \<le> R * (1 + M)"
    by (simp add: R_def S_def M_def \<mu>_def of_rat_mult of_rat_add of_rat_divide of_rat_power)
  have QG: "\<bar>Q - 2 * S / (1 + R)\<bar> \<le> \<Theta>"
    using of_rat_abs_diff_le [OF qe]
    by (simp add: Q_def G_def S_def R_def \<Theta>_def \<theta>_def of_rat_divide of_rat_mult of_rat_add
        of_rat_power)
  have "\<bar>real_of_rat v - real_of_rat (q - 1)\<bar> \<le> real_of_rat (1 / 2 ^ 51)"
    using ve by (rule of_rat_abs_diff_le)
  then have VQ: "\<bar>V - (Q - 1)\<bar> \<le> 1 / 2 ^ 51"
    by (simp add: V_def Q_def of_rat_diff of_rat_divide of_rat_power)
  have M: "0 \<le> M" "M \<le> 1"
    by (simp_all add: M_def)
  have sr: "\<bar>S - sqrt R\<bar> \<le> M * sqrt R"
    using S0 R0 M lo up by (rule sqrt_from_square)
  have Rp: "0 < 1 + R"
    using R0 by simp
  define D where "D = S - sqrt R"
  have "2 * S / (1 + R) - 2 * sqrt R / (1 + R) = 2 * D / (1 + R)"
    by (simp add: D_def diff_divide_distrib algebra_simps)
  moreover have "\<bar>2 * D / (1 + R)\<bar> = 2 * \<bar>D\<bar> / (1 + R)"
    using Rp by (simp add: abs_mult)
  ultimately have "\<bar>2 * S / (1 + R) - 2 * sqrt R / (1 + R)\<bar> = 2 * \<bar>D\<bar> / (1 + R)"
    by (simp only:)
  also have "\<dots> \<le> 2 * (M * sqrt R) / (1 + R)"
    using sr Rp unfolding D_def by (intro divide_right_mono) simp_all
  also have "\<dots> = M * (2 * sqrt R / (1 + R))"
    by simp
  also have "\<dots> \<le> M * 1"
    using M two_sqrt_le [OF R0] Rp by (intro mult_left_mono) simp_all
  finally have t1: "\<bar>2 * S / (1 + R) - 2 * sqrt R / (1 + R)\<bar> \<le> M"
    by simp
  have t2: "\<bar>2 * sqrt R / (1 + R) - 2 * sqrt X / (1 + X)\<bar> \<le> 2 * \<bar>sqrt R - sqrt X\<bar> + \<bar>R - X\<bar>"
    using R0 X0 by (rule root_formula_lipschitz)
  have num: "1 / 2 ^ 51 + M \<le> (1 / 2 ^ 48 :: real)"
    by (simp add: M_def)
  have th: "2 * \<Theta> = 1 / 10 ^ dp"
    by (simp add: \<Theta>_def)
  have "\<bar>V - (2 * sqrt X / (1 + X) - 1)\<bar> \<le> 1 / 2 ^ 48 + 2 * \<Theta> + 2 * \<bar>sqrt R - sqrt X\<bar>"
    using VQ QG t1 t2 RX num by linarith
  then show ?thesis
    using res unfolding th V_def X_def R_def r_def x_def by blast
qed

text \<open>
  \<^verbatim>\<open>Math.sqrt\<close> against the square root over the reals, for a number in the normal
  range.
\<close>

lemma js_sqrt_accuracy:
  assumes lo: "pow2 (- 1022) \<le> a" and hi: "a < pow2 1023"
  shows "\<exists>d. js_sqrt (Fin a) = Fin d
     \<and> \<bar>real_of_rat d - sqrt (real_of_rat a)\<bar> \<le> sqrt (real_of_rat a) / 2 ^ 51"
proof -
  from sqrt_round_bound [OF assms] obtain d
    where d: "sqrt_round a = Fin d" and d_lo: "pow2 (- 513) \<le> d"
      and up: "d * d \<le> a * (1 + 1 / 2 ^ 51)" and low: "a * (1 - 1 / 2 ^ 51) \<le> d * d"
    by blast
  have a_pos: "0 < a"
    using lo pow2_pos [of "- 1022"] by linarith
  have d_pos: "0 < d"
    using d_lo pow2_pos [of "- 513"] by linarith
  have "real_of_rat (d * d) \<le> real_of_rat (a * (1 + 1 / 2 ^ 51))"
    using up by (simp only: of_rat_less_eq)
  then have up': "real_of_rat d * real_of_rat d \<le> real_of_rat a * (1 + 1 / 2 ^ 51)"
    by (simp add: of_rat_mult of_rat_add of_rat_divide of_rat_power)
  have "real_of_rat (a * (1 - 1 / 2 ^ 51)) \<le> real_of_rat (d * d)"
    using low by (simp only: of_rat_less_eq)
  then have low': "real_of_rat a * (1 - 1 / 2 ^ 51) \<le> real_of_rat d * real_of_rat d"
    by (simp add: of_rat_mult of_rat_diff of_rat_divide of_rat_power)
  have "\<bar>real_of_rat d - sqrt (real_of_rat a)\<bar> \<le> 1 / 2 ^ 51 * sqrt (real_of_rat a)"
    using d_pos a_pos low' up' by (intro sqrt_from_square) simp_all
  moreover have "js_sqrt (Fin a) = Fin d"
    using a_pos d by simp
  ultimately show ?thesis
    by simp
qed

text \<open>
  Claim C5, amended: the impermanent loss is 0 if either ratio is 0. Otherwise it is
  \<open>2 * sqrt(r) / (1 + r) - 1\<close> in the arithmetic of the code: \<open>r\<close> is the decimal quotient
  \<open>current / initial\<close> (rounded to \<open>dp\<close> places), the root is taken in binary64 and read
  back as a decimal, the division is again rounded to \<open>dp\<close> places, and the result is the
  nearest number. For a positive quotient up to \<open>10^300\<close> and up to 300 decimal places the
  result differs from the formula over the reals by at most
  \<open>2^(-48) + 10^(-dp) + 2 * sqrt (10^(-dp) / 2)\<close>, and by at most \<open>2^(-48) + 11 * 10^(-dp)\<close>
  when the quotient is at least \<open>1/100\<close>. It is 0 for equal non-zero ratios. It is negative
  whenever the quotient is positive, at most \<open>10^300\<close> and at least \<open>10^(-6)\<close> away from 1,
  for every precision \<open>dp\<close> from 16 to 300 (the library's default is 20, the application
  sets 18); from ratio 1 to ratio 4 it is the number nearest to \<open>-0.2\<close>.
\<close>

theorem impermanent_loss_spec:
  "calculateImpermanentLoss dp 0 currentPriceRatio = Fin 0
   \<and> calculateImpermanentLoss dp initialPriceRatio 0 = Fin 0
   \<and> (initialPriceRatio \<noteq> 0 \<and> currentPriceRatio \<noteq> 0 \<longrightarrow>
        (\<exists>ratio. big_div dp currentPriceRatio initialPriceRatio = Inr ratio
           \<and> \<bar>ratio - currentPriceRatio / initialPriceRatio\<bar> \<le> 1 / (2 * 10 ^ dp)
           \<and> (\<forall>sqrtRatio. big_of_num (js_sqrt (num_of_big ratio)) = Inr sqrtRatio \<longrightarrow>
                 1 + ratio \<noteq> 0 \<longrightarrow>
                 calculateImpermanentLoss dp initialPriceRatio currentPriceRatio
                   = num_of_big (big_round dp (2 * sqrtRatio / (1 + ratio)) - 1))))
   \<and> (dp \<le> 300 \<and> initialPriceRatio \<noteq> 0
        \<and> 0 < currentPriceRatio / initialPriceRatio
        \<and> currentPriceRatio / initialPriceRatio \<le> 10 ^ 300 \<longrightarrow>
        (\<exists>v. calculateImpermanentLoss dp initialPriceRatio currentPriceRatio = Fin v
           \<and> \<bar>real_of_rat v
                - (2 * sqrt (real_of_rat (currentPriceRatio / initialPriceRatio))
                     / (1 + real_of_rat (currentPriceRatio / initialPriceRatio)) - 1)\<bar>
               \<le> 1 / 2 ^ 48 + 1 / 10 ^ dp + 2 * sqrt (1 / (2 * 10 ^ dp))
           \<and> (1 / 100 \<le> currentPriceRatio / initialPriceRatio \<longrightarrow>
               \<bar>real_of_rat v
                - (2 * sqrt (real_of_rat (currentPriceRatio / initialPriceRatio))
                     / (1 + real_of_rat (currentPriceRatio / initialPriceRatio)) - 1)\<bar>
               \<le> 1 / 2 ^ 48 + 11 / 10 ^ dp)))
   \<and> (r \<noteq> 0 \<longrightarrow> calculateImpermanentLoss dp r r = Fin 0)
   \<and> (16 \<le> dp \<and> dp \<le> 300 \<and> initialPriceRatio \<noteq> 0
        \<and> 0 < currentPriceRatio / initialPriceRatio
        \<and> currentPriceRatio / initialPriceRatio \<le> 10 ^ 300
        \<and> 1 / 1000000 \<le> \<bar>currentPriceRatio / initialPriceRatio - 1\<bar> \<longrightarrow>
        js_lt (calculateImpermanentLoss dp initialPriceRatio currentPriceRatio) (Fin 0))
   \<and> calculateImpermanentLoss 20 1 4 = fl (- (1 / 5))"
proof -
  have 1: "calculateImpermanentLoss dp 0 currentPriceRatio = Fin 0"
    by (simp add: calculateImpermanentLoss_def)
  have 2: "calculateImpermanentLoss dp initialPriceRatio 0 = Fin 0"
    by (simp add: calculateImpermanentLoss_def)
  have 3: "\<exists>ratio. big_div dp currentPriceRatio initialPriceRatio = Inr ratio
           \<and> \<bar>ratio - currentPriceRatio / initialPriceRatio\<bar> \<le> 1 / (2 * 10 ^ dp)
           \<and> (\<forall>sqrtRatio. big_of_num (js_sqrt (num_of_big ratio)) = Inr sqrtRatio \<longrightarrow>
                 1 + ratio \<noteq> 0 \<longrightarrow>
                 calculateImpermanentLoss dp initialPriceRatio currentPriceRatio
                   = num_of_big (big_round dp (2 * sqrtRatio / (1 + ratio)) - 1))"
    if "initialPriceRatio \<noteq> 0" "currentPriceRatio \<noteq> 0"
    using that big_round_error [of dp "currentPriceRatio / initialPriceRatio"]
    by (simp add: calculateImpermanentLoss_def big_div_def Let_def)
  have 4: "calculateImpermanentLoss dp r r = Fin 0" if "r \<noteq> 0"
  proof -
    have "big_div dp r r = Inr 1"
      using that by (simp add: big_div_def)
    moreover have "big_of_num (js_sqrt (num_of_big 1)) = Inr 1"
      by (simp add: num_of_big_def unit_values)
    moreover have "big_div dp (2 * 1) (1 + 1) = Inr 1"
      by (simp add: big_div_def)
    ultimately show ?thesis
      using that by (simp add: calculateImpermanentLoss_def Let_def num_of_big_def)
  qed
  have 5: "js_lt (calculateImpermanentLoss dp initialPriceRatio currentPriceRatio) (Fin 0)"
    if "16 \<le> dp" "dp \<le> 300" "initialPriceRatio \<noteq> 0"
      "0 < currentPriceRatio / initialPriceRatio"
      "currentPriceRatio / initialPriceRatio \<le> 10 ^ 300"
      "1 / 1000000 \<le> \<bar>currentPriceRatio / initialPriceRatio - 1\<bar>"
    using loss_negative [OF that] by auto
  have 6: "calculateImpermanentLoss 20 1 4 = fl (- (1 / 5))"
    by (simp only: il_values)
  have 7: "\<exists>v. calculateImpermanentLoss dp initialPriceRatio currentPriceRatio = Fin v
           \<and> \<bar>real_of_rat v
                - (2 * sqrt (real_of_rat (currentPriceRatio / initialPriceRatio))
                     / (1 + real_of_rat (currentPriceRatio / initialPriceRatio)) - 1)\<bar>
               \<le> 1 / 2 ^ 48 + 1 / 10 ^ dp + 2 * sqrt (1 / (2 * 10 ^ dp))
           \<and> (1 / 100 \<le> currentPriceRatio / initialPriceRatio \<longrightarrow>
               \<bar>real_of_rat v
                - (2 * sqrt (real_of_rat (currentPriceRatio / initialPriceRatio))
                     / (1 + real_of_rat (currentPriceRatio / initialPriceRatio)) - 1)\<bar>
               \<le> 1 / 2 ^ 48 + 11 / 10 ^ dp)"
    if h: "dp \<le> 300" "initialPriceRatio \<noteq> 0" "0 < currentPriceRatio / initialPriceRatio"
      "currentPriceRatio / initialPriceRatio \<le> 10 ^ 300"
  proof -
    define x where "x = currentPriceRatio / initialPriceRatio"
    define X where "X = real_of_rat x"
    define R where "R = real_of_rat (big_round dp x)"
    define \<Theta> :: real where "\<Theta> = 1 / (2 * 10 ^ dp)"
    define K :: real where "K = 1 / 2 ^ 48 + 1 / 10 ^ dp"
    define E where "E = \<bar>sqrt R - sqrt X\<bar>"
    from loss_accuracy [OF h] obtain v
      where v: "calculateImpermanentLoss dp initialPriceRatio currentPriceRatio = Fin v"
        and acc: "\<bar>real_of_rat v - (2 * sqrt X / (1 + X) - 1)\<bar> \<le> K + 2 * E"
      unfolding X_def R_def x_def K_def E_def by blast
    define A where "A = \<bar>real_of_rat v - (2 * sqrt X / (1 + X) - 1)\<bar>"
    note acc = acc [folded A_def]
    have X0: "0 \<le> X"
      using h(3) by (simp add: X_def x_def)
    have R0: "0 \<le> R"
      unfolding R_def using h(3) by (simp add: big_round_nonneg x_def)
    have RX: "\<bar>R - X\<bar> \<le> \<Theta>"
      using of_rat_abs_diff_le [OF big_round_error [of dp x]]
      by (simp add: R_def X_def \<Theta>_def of_rat_divide of_rat_mult of_rat_power)
    have "E \<le> sqrt \<bar>R - X\<bar>"
      unfolding E_def using R0 X0 by (rule sqrt_diff_le)
    also have "\<dots> \<le> sqrt \<Theta>"
      using RX by (rule real_sqrt_le_mono)
    finally have "A \<le> K + 2 * sqrt \<Theta>"
      using acc by linarith
    then have g: "\<bar>real_of_rat v - (2 * sqrt X / (1 + X) - 1)\<bar>
        \<le> 1 / 2 ^ 48 + 1 / 10 ^ dp + 2 * sqrt \<Theta>"
      by (simp only: A_def K_def)
    have a: "\<bar>real_of_rat v - (2 * sqrt X / (1 + X) - 1)\<bar> \<le> 1 / 2 ^ 48 + 11 / 10 ^ dp"
      if "1 / 100 \<le> x"
    proof -
      have "real_of_rat (1 / 100) \<le> X"
        unfolding X_def using that by (simp only: of_rat_less_eq)
      then have "1 / 100 \<le> X"
        by (simp add: of_rat_divide)
      with R0 have "E \<le> 10 * \<bar>R - X\<bar>"
        unfolding E_def by (rule sqrt_diff_away)
      moreover have "10 * \<bar>R - X\<bar> \<le> 10 * \<Theta>"
        using RX by simp
      ultimately have "E \<le> 10 * \<Theta>"
        by (rule order_trans)
      moreover have "20 * \<Theta> = 10 / 10 ^ dp"
        by (simp add: \<Theta>_def)
      ultimately have "A \<le> K + 10 / 10 ^ dp"
        using acc by linarith
      moreover have "K + 10 / 10 ^ dp = 1 / 2 ^ 48 + 11 / 10 ^ dp"
        by (simp add: K_def)
      ultimately show ?thesis
        by (simp only: A_def)
    qed
    from v g a show ?thesis
      unfolding X_def x_def \<Theta>_def by blast
  qed
  from 1 2 3 4 5 6 7 show ?thesis
    by blast
qed

theorem impermanent_loss_spec_witness:
  "(5::rat) \<noteq> 0 \<and> calculateImpermanentLoss 20 5 5 = Fin 0
   \<and> calculateImpermanentLoss 20 0 (3 / 2) = Fin 0 \<and> calculateImpermanentLoss 20 1 0 = Fin 0
   \<and> (1::rat) \<noteq> 0 \<and> (1::rat) / 1000000 \<le> \<bar>3 / 2 / 1 - 1\<bar>
   \<and> js_lt (calculateImpermanentLoss 20 1 (3 / 2)) (Fin 0)
   \<and> js_lt (calculateImpermanentLoss 18 2 1) (Fin 0)
   \<and> (\<exists>v. calculateImpermanentLoss 18 2 1 = Fin v
         \<and> \<bar>real_of_rat v - (2 * sqrt (1 / 2) / (1 + 1 / 2) - 1)\<bar> \<le> 1 / 2 ^ 48 + 11 / 10 ^ 18)"
  using impermanent_loss_spec [where dp = 20 and initialPriceRatio = 1
      and currentPriceRatio = "3 / 2" and r = 5]
    impermanent_loss_spec [where dp = 18 and initialPriceRatio = 2
      and currentPriceRatio = 1 and r = 5]
  by (simp add: of_rat_divide) blast

lemma map_err_Inr: "\<forall>b \<in> set bs. f b = Inr (g b) \<Longrightarrow> map_err f bs = Inr (map g bs)"
  by (induction bs) auto

lemma foldl_add_X: "foldl (\<lambda>sum bin. sum + liquidityX bin) a bs = a + sum_list (map liquidityX bs)"
  by (induction bs arbitrary: a) auto

lemma foldl_add_Y: "foldl (\<lambda>sum bin. sum + liquidityY bin) a bs = a + sum_list (map liquidityY bs)"
  by (induction bs arbitrary: a) auto

lemma sum_equal_bins:
  "\<forall>b \<in> set bs. liquidityX b + liquidityY b = t \<Longrightarrow>
     sum_list (map liquidityX bs) + sum_list (map liquidityY bs) = of_nat (length bs) * t"
  by (induction bs) (auto simp: algebra_simps)

lemma five_bins_values:
  "concentrationIndex
     (getLiquidityDistribution 20 (replicate 5 \<lparr>liquidityX = 1, liquidityY = 1\<rparr>))
   = Fin (7205759403792793 / 9007199254740992)"
  "js_sub (Fin 1) (js_div (Fin 1) (Fin 5)) = Fin (3602879701896397 / 4503599627370496)"
  by code_simp+

text \<open>
  Claim C7, as stated: for \<open>n\<close> bins of equal positive liquidity the concentration index
  equals \<open>1 - 1/n\<close>. For five bins the code returns \<open>0.7999999999999999\<close>, which is neither
  \<open>4/5\<close> nor the number \<^verbatim>\<open>1 - 1/5\<close> (\<open>0.8\<close>, the binary64 number nearest to \<open>4/5\<close>).
\<close>

theorem five_equal_bins_counterexample:
  "concentrationIndex
     (getLiquidityDistribution 20 (replicate 5 \<lparr>liquidityX = 1, liquidityY = 1\<rparr>))
     = Fin (7205759403792793 / 9007199254740992)
   \<and> concentrationIndex
     (getLiquidityDistribution 20 (replicate 5 \<lparr>liquidityX = 1, liquidityY = 1\<rparr>))
     \<noteq> Fin (1 - 1 / 5)
   \<and> concentrationIndex
     (getLiquidityDistribution 20 (replicate 5 \<lparr>liquidityX = 1, liquidityY = 1\<rparr>))
     \<noteq> js_sub (Fin 1) (js_div (Fin 1) (Fin 5))"
  unfolding five_bins_values by simp

text \<open>
  For every non-empty list of bins whose total liquidity is not 0 the shares are the
  numbers nearest to the decimal quotients (rounded to \<open>dp\<close> places), the index is 1 minus
  the sum of their squares, added one by one in binary64, and the ratio is the number
  nearest to the decimal quotient of the total of Y by the total of X, or 0 when the
  total of X is 0.
\<close>

lemma getLiquidityDistribution_formula:
  assumes ne: "binData \<noteq> []"
    and tot: "sum_list (map liquidityX binData) + sum_list (map liquidityY binData) \<noteq> 0"
  shows "getLiquidityDistribution dp binData =
      \<lparr>concentrationIndex = js_sub (Fin 1) (foldl (\<lambda>a b. js_add a (js_mul b b)) (Fin 0)
         (map (\<lambda>b. num_of_big (big_round dp ((liquidityX b + liquidityY b)
            / (sum_list (map liquidityX binData) + sum_list (map liquidityY binData)))))
          binData)),
       liquidityRatio = (if sum_list (map liquidityX binData) = 0 then Fin 0
            else num_of_big (big_round dp
                   (sum_list (map liquidityY binData) / sum_list (map liquidityX binData))))\<rparr>"
proof -
  let ?T = "sum_list (map liquidityX binData) + sum_list (map liquidityY binData)"
  have shares: "map_err (\<lambda>bin. bind_err (big_div dp (liquidityX bin + liquidityY bin) ?T)
        (\<lambda>q. Inr (num_of_big q))) binData
      = Inr (map (\<lambda>b. num_of_big (big_round dp ((liquidityX b + liquidityY b) / ?T))) binData)"
    using tot by (intro map_err_Inr) (simp add: big_div_def)
  have ratio: "(if sum_list (map liquidityX binData) = 0 then Inr (Fin 0)
        else bind_err (big_div dp (sum_list (map liquidityY binData))
               (sum_list (map liquidityX binData))) (\<lambda>q. Inr (num_of_big q)))
      = Inr (if sum_list (map liquidityX binData) = 0 then Fin 0
          else num_of_big (big_round dp
                 (sum_list (map liquidityY binData) / sum_list (map liquidityX binData))))"
    by (simp add: big_div_def)
  have len: "(length binData = 0) = False"
    using ne by simp
  show ?thesis
    by (simp only: getLiquidityDistribution_def Let_def foldl_add_X foldl_add_Y add_0_left
        shares ratio bind_err_Inr try_catch_Inr len if_False)
qed

text \<open>When the total is 0 the first share divides by zero and the \<^verbatim>\<open>catch\<close> returns.\<close>

lemma getLiquidityDistribution_zero_total:
  assumes ne: "binData \<noteq> []"
    and tot: "sum_list (map liquidityX binData) + sum_list (map liquidityY binData) = 0"
  shows "getLiquidityDistribution dp binData
     = \<lparr>concentrationIndex = Fin 0, liquidityRatio = Fin 0\<rparr>"
proof -
  have "map_err (\<lambda>bin. bind_err (big_div dp (liquidityX bin + liquidityY bin) 0)
        (\<lambda>q. Inr (num_of_big q))) binData = Inl DivisionByZero"
    using ne by (intro map_err_throws) (simp_all add: big_div_def)
  then show ?thesis
    using ne by (simp add: getLiquidityDistribution_def Let_def foldl_add_X foldl_add_Y tot)
qed

text \<open>
  Claim C7, amended: the result is \<open>(0, 0)\<close> for an empty list. For every non-empty list
  whose total liquidity is not 0, the index is 1 minus the sum of the squared shares and
  the ratio is the total of Y by the total of X (0 when the total of X is 0), in the
  arithmetic of the code: quotients are decimals rounded to \<open>dp\<close> places and then to
  binary64, and the squares are added one by one in binary64. When the total is 0 the
  result is \<open>(0, 0)\<close>. For \<open>n\<close> bins of equal positive liquidity every share is the same
  number, the one nearest to the decimal quotient \<open>1/n\<close>, and the index is \<open>1 - 1/n\<close> up to
  these roundings: for \<open>n\<close> up to \<open>2^40\<close> and up to \<open>10^dp\<close> it differs from \<open>1 - 1/n\<close> by at
  most \<open>(2n + 4) / 2^51 + 3 / (2 * 10^dp)\<close>.
\<close>

theorem equal_bins_distribution:
  "getLiquidityDistribution dp [] = \<lparr>concentrationIndex = Fin 0, liquidityRatio = Fin 0\<rparr>
   \<and> (binData \<noteq> []
        \<and> sum_list (map liquidityX binData) + sum_list (map liquidityY binData) \<noteq> 0 \<longrightarrow>
      getLiquidityDistribution dp binData =
        \<lparr>concentrationIndex = js_sub (Fin 1) (foldl (\<lambda>a b. js_add a (js_mul b b)) (Fin 0)
           (map (\<lambda>b. num_of_big (big_round dp ((liquidityX b + liquidityY b)
              / (sum_list (map liquidityX binData) + sum_list (map liquidityY binData)))))
            binData)),
         liquidityRatio = (if sum_list (map liquidityX binData) = 0 then Fin 0
            else num_of_big (big_round dp
                   (sum_list (map liquidityY binData) / sum_list (map liquidityX binData))))\<rparr>)
   \<and> (binData \<noteq> []
        \<and> sum_list (map liquidityX binData) + sum_list (map liquidityY binData) = 0 \<longrightarrow>
      getLiquidityDistribution dp binData
        = \<lparr>concentrationIndex = Fin 0, liquidityRatio = Fin 0\<rparr>)
   \<and> ((\<forall>b \<in> set binData. liquidityX b + liquidityY b = t) \<and> 0 < t \<and> binData \<noteq> [] \<longrightarrow>
        concentrationIndex (getLiquidityDistribution dp binData)
         = js_sub (Fin 1) (foldl (\<lambda>a b. js_add a (js_mul b b)) (Fin 0)
             (replicate (length binData)
                (num_of_big (big_round dp (1 / of_nat (length binData))))))
      \<and> (length binData \<le> 2 ^ 40 \<and> of_nat (length binData) \<le> (10::rat) ^ dp \<longrightarrow>
          (\<exists>c. concentrationIndex (getLiquidityDistribution dp binData) = Fin c
             \<and> \<bar>c - (1 - 1 / of_nat (length binData))\<bar>
                 \<le> (2 * of_nat (length binData) + 4) / 2 ^ 51 + 3 / (2 * 10 ^ dp))))"
proof -
  let ?n = "length binData"
  let ?s = "num_of_big (big_round dp (1 / of_nat ?n))"
  let ?T = "sum_list (map liquidityX binData) + sum_list (map liquidityY binData)"
  have 1: "getLiquidityDistribution dp [] = \<lparr>concentrationIndex = Fin 0, liquidityRatio = Fin 0\<rparr>"
    by (simp add: getLiquidityDistribution_def)
  have 4: "concentrationIndex (getLiquidityDistribution dp binData)
         = js_sub (Fin 1) (foldl (\<lambda>a b. js_add a (js_mul b b)) (Fin 0) (replicate ?n ?s))
      \<and> (?n \<le> 2 ^ 40 \<and> of_nat ?n \<le> (10::rat) ^ dp \<longrightarrow>
          (\<exists>c. concentrationIndex (getLiquidityDistribution dp binData) = Fin c
             \<and> \<bar>c - (1 - 1 / of_nat ?n)\<bar> \<le> (2 * of_nat ?n + 4) / 2 ^ 51 + 3 / (2 * 10 ^ dp)))"
    if eq: "\<forall>b \<in> set binData. liquidityX b + liquidityY b = t" and t: "0 < t"
      and ne: "binData \<noteq> []"
  proof -
    have n: "0 < ?n"
      using ne by simp
    have tot: "?T = of_nat ?n * t"
      using eq by (rule sum_equal_bins)
    have nz: "?T \<noteq> 0"
      using n t by (simp add: tot)
    have "num_of_big (big_round dp ((liquidityX b + liquidityY b) / ?T)) = ?s"
      if "b \<in> set binData" for b
    proof -
      have "liquidityX b + liquidityY b = t"
        using eq that by simp
      moreover have "t / (of_nat ?n * t) = 1 / of_nat ?n"
        using t by simp
      ultimately show ?thesis
        by (simp add: tot)
    qed
    then have "map (\<lambda>b. num_of_big (big_round dp ((liquidityX b + liquidityY b) / ?T))) binData
        = map (\<lambda>_. ?s) binData"
      by (intro map_cong) simp_all
    then have shares: "map (\<lambda>b. num_of_big (big_round dp ((liquidityX b + liquidityY b) / ?T)))
        binData = replicate ?n ?s"
      by (simp only: map_replicate_const)
    have idx: "concentrationIndex (getLiquidityDistribution dp binData)
         = js_sub (Fin 1) (foldl (\<lambda>a b. js_add a (js_mul b b)) (Fin 0) (replicate ?n ?s))"
      unfolding getLiquidityDistribution_formula [OF ne nz] shares by simp
    have "\<exists>c. concentrationIndex (getLiquidityDistribution dp binData) = Fin c
             \<and> \<bar>c - (1 - 1 / of_nat ?n)\<bar> \<le> (2 * of_nat ?n + 4) / 2 ^ 51 + 3 / (2 * 10 ^ dp)"
      if "?n \<le> 2 ^ 40" "of_nat ?n \<le> (10::rat) ^ dp"
      unfolding idx using equal_shares_index_error [OF n that] by simp
    with idx show ?thesis
      by blast
  qed
  show ?thesis
    using 1 getLiquidityDistribution_formula [of binData dp]
      getLiquidityDistribution_zero_total [of binData dp] 4
    by blast
qed

lemma two_bins_values:
  "js_sub (Fin 1) (foldl (\<lambda>a b. js_add a (js_mul b b)) (Fin 0)
     (replicate 2 (num_of_big (big_round 20 (1 / 2))))) = Fin (1 / 2)"
  "fl 3 = Fin 3"
  by code_simp+

theorem equal_bins_distribution_witness:
  "concentrationIndex (getLiquidityDistribution 20
     [\<lparr>liquidityX = 1, liquidityY = 1\<rparr>, \<lparr>liquidityX = 1, liquidityY = 1\<rparr>]) = Fin (1 / 2)
   \<and> liquidityRatio (getLiquidityDistribution 20
     [\<lparr>liquidityX = 1, liquidityY = 1\<rparr>, \<lparr>liquidityX = 1, liquidityY = 1\<rparr>]) = Fin 1
   \<and> liquidityRatio (getLiquidityDistribution 20
     [\<lparr>liquidityX = 1, liquidityY = 2\<rparr>, \<lparr>liquidityX = 0, liquidityY = 1\<rparr>]) = Fin 3
   \<and> \<bar>(1 / 2 :: rat) - (1 - 1 / 2)\<bar> \<le> (2 * 2 + 4) / 2 ^ 51 + 3 / (2 * 10 ^ 20)"
proof -
  let ?bins = "[\<lparr>liquidityX = 1, liquidityY = 1\<rparr>, \<lparr>liquidityX = 1, liquidityY = 1\<rparr>]"
  let ?other = "[\<lparr>liquidityX = 1, liquidityY = 2\<rparr>, \<lparr>liquidityX = 0, liquidityY = 1\<rparr>]"
  have eq: "\<forall>b \<in> set ?bins. liquidityX b + liquidityY b = 2"
    by simp
  have t: "(0::rat) < 2"
    by simp
  have ne: "?bins \<noteq> []" "?other \<noteq> []"
    by simp_all
  have tot: "sum_list (map liquidityX ?bins) + sum_list (map liquidityY ?bins) \<noteq> 0"
    "sum_list (map liquidityX ?other) + sum_list (map liquidityY ?other) \<noteq> 0"
    by simp_all
  have len: "length ?bins = 2"
    by simp
  note T = equal_bins_distribution [where dp = 20 and binData = ?bins and t = 2]
  note U = equal_bins_distribution [where dp = 20 and binData = ?other and t = 2]
  from T eq t ne(1)
  have A: "concentrationIndex (getLiquidityDistribution 20 ?bins)
      = js_sub (Fin 1) (foldl (\<lambda>a b. js_add a (js_mul b b)) (Fin 0)
          (replicate (length ?bins) (num_of_big (big_round 20 (1 / of_nat (length ?bins))))))"
    by blast
  from T ne(1) tot(1)
  have B: "liquidityRatio (getLiquidityDistribution 20 ?bins)
      = (if sum_list (map liquidityX ?bins) = 0 then Fin 0
         else num_of_big (big_round 20
                (sum_list (map liquidityY ?bins) / sum_list (map liquidityX ?bins))))"
    by simp
  from U ne(2) tot(2)
  have B': "liquidityRatio (getLiquidityDistribution 20 ?other)
      = (if sum_list (map liquidityX ?other) = 0 then Fin 0
         else num_of_big (big_round 20
                (sum_list (map liquidityY ?other) / sum_list (map liquidityX ?other))))"
    by simp
  have C: "\<bar>(1 / 2 :: rat) - (1 - 1 / 2)\<bar> \<le> (2 * 2 + 4) / 2 ^ 51 + 3 / (2 * 10 ^ 20)"
    by simp
  have "concentrationIndex (getLiquidityDistribution 20 ?bins) = Fin (1 / 2)"
    using A by (simp only: len of_nat_numeral two_bins_values)
  moreover have "liquidityRatio (getLiquidityDistribution 20 ?bins) = Fin 1"
    using B by (simp add: num_of_big_def unit_values)
  moreover have "big_round 20 3 = 3"
    by (rule big_round_exact [of 3 20 "3 * 10 ^ 20"]) simp
  then have "liquidityRatio (getLiquidityDistribution 20 ?other) = Fin 3"
    using B' by (simp add: num_of_big_def two_bins_values)
  ultimately show ?thesis
    using C by simp
qed

end
